theory Spec2Isabelle
  imports Complex_Main "HOL-Library.Monad_Syntax"
begin

section \<open>Data model (types/chess, as used by utils/chess.ts and utils/chessAI.ts)\<close>

datatype color = White | Black

datatype pieceType = Pawn | Knight | Bishop | Rook | Queen | King

record piece =
  type :: pieceType
  color :: color

record position =
  row :: int
  col :: int

text \<open>
  A JavaScript value that may be \<open>undefined\<close>, \<open>null\<close> or a proper value. Reading a
  board cell yields one of the three; \<open>getAIMove\<close> yields \<open>null\<close> or a move.
\<close>

datatype 'a js = Undefined | Null | Val 'a

text \<open>
  \<open>BoardState\<close> is an array of 8 rows, each an array of 8 cells holding \<open>null\<close> or a
  piece. The model keeps the content of the 8 x 8 grid; every read and write of the
  source goes through \<open>rd\<close> and \<open>wr\<close>, which spell out what JavaScript does
  with an index outside the grid. Coordinates are integers, as every caller passes them.

  A function of the source that can throw or loop is modelled with an \<open>option\<close>
  result: \<open>Some v\<close> when the call returns \<open>v\<close>, and \<open>None\<close> when it does not return,
  because a \<open>TypeError\<close> is thrown (reading or writing a cell of a row that does not
  exist) or because a loop never ends. A loop with an early \<open>return false\<close> is a
  recursive function that yields \<open>Some False\<close> for that return and \<open>Some True\<close> when the
  loop runs to its end.
\<close>

type_synonym board = "int \<Rightarrow> int \<Rightarrow> piece option"

definition rd :: "board \<Rightarrow> int \<Rightarrow> int \<Rightarrow> piece js option" where
  \<comment> \<open>\<open>board[r][c]\<close>: \<open>board[r]\<close> is \<open>undefined\<close> for a row outside 0..7 and indexing it
      throws; a column outside 0..7 of an existing row reads as \<open>undefined\<close>.\<close>
  "rd board r c =
     (if r < 0 \<or> 7 < r then None
      else if c < 0 \<or> 7 < c then Some Undefined
      else Some (case board r c of None \<Rightarrow> Null | Some p \<Rightarrow> Val p))"

definition wr :: "board \<Rightarrow> int \<Rightarrow> int \<Rightarrow> piece option \<Rightarrow> board option" where
  \<comment> \<open>\<open>board[r][c] = v\<close>: throws for a row outside 0..7. For a column outside 0..7 the
      row array gets an extra element (or a property, for a negative index) beyond the
      grid and the 64 cells of the grid keep their content.\<close>
  "wr board r c v =
     (if r < 0 \<or> 7 < r then None
      else if c < 0 \<or> 7 < c then Some board
      else Some (board (r := (board r) (c := v))))"

definition cloneBoard :: "board \<Rightarrow> board" where
  \<comment> \<open>\<open>board.map((row) => [...row])\<close>: a fresh copy of the 8 rows. The model passes
      boards by value, so the copy is the board itself.\<close>
  "cloneBoard board = board"

declare cloneBoard_def [simp]

definition truthy :: "'a js \<Rightarrow> bool" where
  "truthy v = (case v of Val _ \<Rightarrow> True | _ \<Rightarrow> False)"

definition indices :: "int list" where
  "indices = [0, 1, 2, 3, 4, 5, 6, 7]"

definition squares :: "(int \<times> int) list" where
  \<comment> \<open>the squares in the order of \<open>for (row = 0..7) for (col = 0..7)\<close>\<close>
  "squares = concat (map (\<lambda>r. map (\<lambda>c. (r, c)) indices) indices)"

definition onBoard :: "int \<Rightarrow> int \<Rightarrow> bool" where
  \<comment> \<open>a square of the grid: row and column in 0..7\<close>
  "onBoard r c = (0 \<le> r \<and> r \<le> 7 \<and> 0 \<le> c \<and> c \<le> 7)"

section \<open>utils/chess.ts\<close>

definition pieceOrder :: "int \<Rightarrow> pieceType" where
  \<comment> \<open>\<open>pieceOrder[col]\<close> of \<open>createInitialBoard\<close>\<close>
  "pieceOrder c =
     (if c = 0 then Rook else if c = 1 then Knight else if c = 2 then Bishop
      else if c = 3 then Queen else if c = 4 then King else if c = 5 then Bishop
      else if c = 6 then Knight else Rook)"

definition createInitialBoard :: board where
  "createInitialBoard =
     (\<lambda>r c.
        if r = 0 then Some \<lparr>type = pieceOrder c, color = Black\<rparr>
        else if r = 7 then Some \<lparr>type = pieceOrder c, color = White\<rparr>
        else if r = 1 then Some \<lparr>type = Pawn, color = Black\<rparr>
        else if r = 6 then Some \<lparr>type = Pawn, color = White\<rparr>
        else None)"


partial_function (option) pathLoop ::
  "board \<Rightarrow> int \<Rightarrow> int \<Rightarrow> int \<Rightarrow> int \<Rightarrow> int \<Rightarrow> int \<Rightarrow> bool option" where
  "pathLoop board rowDirection colDirection toRow toCol currentRow currentCol =
     (if currentRow \<noteq> toRow \<or> currentCol \<noteq> toCol then
        do {
          cell \<leftarrow> rd board currentRow currentCol;
          if cell \<noteq> Null then Some False
          else pathLoop board rowDirection colDirection toRow toCol
                 (currentRow + rowDirection) (currentCol + colDirection)
        }
      else Some True)"

declare pathLoop.simps [code]

definition isPathClear :: "board \<Rightarrow> int \<Rightarrow> int \<Rightarrow> int \<Rightarrow> int \<Rightarrow> bool option" where
  "isPathClear board fromRow fromCol toRow toCol =
     (let rowDirection = (if toRow > fromRow then 1 else if toRow < fromRow then - 1 else 0);
          colDirection = (if toCol > fromCol then 1 else if toCol < fromCol then - 1 else 0)
      in pathLoop board rowDirection colDirection toRow toCol
           (fromRow + rowDirection) (fromCol + colDirection))"

definition pawnMove ::
  "board \<Rightarrow> piece \<Rightarrow> piece js \<Rightarrow> int \<Rightarrow> int \<Rightarrow> int \<Rightarrow> int \<Rightarrow> bool option" where
  \<comment> \<open>the \<open>case 'pawn'\<close> block of \<open>isValidPieceMove\<close>\<close>
  "pawnMove board piece targetPiece fromRow fromCol toRow toCol =
     (let direction = (if color piece = White then - 1 else 1);
          startRow = (if color piece = White then 6 else 1)
      in do {
        forward \<leftarrow>
          (if fromCol = toCol \<and> \<not> truthy targetPiece then
             if toRow = fromRow + direction then Some True
             else if fromRow = startRow \<and> toRow = fromRow + 2 * direction then
               do { mid \<leftarrow> rd board (fromRow + direction) fromCol; Some (mid = Null) }
             else Some False
           else Some False);
        if forward then Some True
        else Some (\<bar>fromCol - toCol\<bar> = 1 \<and> toRow = fromRow + direction \<and> truthy targetPiece)
      })"

definition isValidPieceMove :: "board \<Rightarrow> int \<Rightarrow> int \<Rightarrow> int \<Rightarrow> int \<Rightarrow> bool option" where
  "isValidPieceMove board fromRow fromCol toRow toCol =
     (if toRow < 0 \<or> toRow > 7 \<or> toCol < 0 \<or> toCol > 7 then Some False
      else do {
        cell \<leftarrow> rd board fromRow fromCol;
        case cell of
          Val piece \<Rightarrow>
            if fromRow = toRow \<and> fromCol = toCol then Some False
            else do {
              targetPiece \<leftarrow> rd board toRow toCol;
              if (case targetPiece of Val t \<Rightarrow> color t = color piece | _ \<Rightarrow> False)
              then Some False
              else
                let rowDiff = \<bar>toRow - fromRow\<bar>; colDiff = \<bar>toCol - fromCol\<bar> in
                (case type piece of
                   Pawn \<Rightarrow> pawnMove board piece targetPiece fromRow fromCol toRow toCol
                 | Rook \<Rightarrow>
                     if rowDiff = 0 \<or> colDiff = 0
                     then isPathClear board fromRow fromCol toRow toCol else Some False
                 | Bishop \<Rightarrow>
                     if rowDiff = colDiff
                     then isPathClear board fromRow fromCol toRow toCol else Some False
                 | Queen \<Rightarrow>
                     if rowDiff = 0 \<or> colDiff = 0 \<or> rowDiff = colDiff
                     then isPathClear board fromRow fromCol toRow toCol else Some False
                 | King \<Rightarrow> Some (rowDiff \<le> 1 \<and> colDiff \<le> 1)
                 | Knight \<Rightarrow>
                     Some ((rowDiff = 2 \<and> colDiff = 1) \<or> (rowDiff = 1 \<and> colDiff = 2)))
            }
        | _ \<Rightarrow> Some False
      })"

fun findKingLoop :: "board \<Rightarrow> color \<Rightarrow> (int \<times> int) list \<Rightarrow> position js option" where
  "findKingLoop board clr [] = Some Null"
| "findKingLoop board clr ((r, c) # rest) =
     do {
       cell \<leftarrow> rd board r c;
       case cell of
         Val piece \<Rightarrow>
           if type piece = King \<and> color piece = clr then Some (Val \<lparr>row = r, col = c\<rparr>)
           else findKingLoop board clr rest
       | _ \<Rightarrow> findKingLoop board clr rest
     }"

definition findKingPosition :: "board \<Rightarrow> color \<Rightarrow> position js option" where
  "findKingPosition board clr = findKingLoop board clr squares"

fun attackLoop :: "board \<Rightarrow> int \<Rightarrow> int \<Rightarrow> color \<Rightarrow> (int \<times> int) list \<Rightarrow> bool option" where
  "attackLoop board r c byColor [] = Some False"
| "attackLoop board r c byColor ((r', c') # rest) =
     do {
       cell \<leftarrow> rd board r' c';
       case cell of
         Val piece \<Rightarrow>
           if color piece = byColor then
             do {
               v \<leftarrow> isValidPieceMove board r' c' r c;
               if v then Some True else attackLoop board r c byColor rest
             }
           else attackLoop board r c byColor rest
       | _ \<Rightarrow> attackLoop board r c byColor rest
     }"

definition isSquareAttacked :: "board \<Rightarrow> int \<Rightarrow> int \<Rightarrow> color \<Rightarrow> bool option" where
  "isSquareAttacked board r c byColor = attackLoop board r c byColor squares"

definition opponent :: "color \<Rightarrow> color" where
  \<comment> \<open>\<open>color === 'white' ? 'black' : 'white'\<close>\<close>
  "opponent clr = (if clr = White then Black else White)"

definition isKingInCheck :: "board \<Rightarrow> color \<Rightarrow> bool option" where
  "isKingInCheck board clr =
     do {
       kingPos \<leftarrow> findKingPosition board clr;
       case kingPos of
         Val k \<Rightarrow> isSquareAttacked board (row k) (col k) (opponent clr)
       | _ \<Rightarrow> Some False
     }"

function castlePathLoop :: "board \<Rightarrow> int \<Rightarrow> bool \<Rightarrow> int \<Rightarrow> bool option" where
  \<comment> \<open>\<open>for (c = fromCol + step; c !== rookCol; c += step)\<close> of the castling branch;
      \<open>Some False\<close> is its \<open>return false\<close>, \<open>Some True\<close> is the loop left at its end\<close>
  "castlePathLoop board fromRow isKingside c =
     (if c \<noteq> (if isKingside then 7 else 0) then
        do {
          cell \<leftarrow> rd board fromRow c;
          if cell \<noteq> Null then Some False
          else castlePathLoop board fromRow isKingside (c + (if isKingside then 1 else - 1))
        }
      else Some True)"
  by pat_completeness auto
termination
  by (relation "measure (\<lambda>(board, fromRow, isKingside, c).
        nat (if isKingside then 8 - c else c + 1))")
     (auto simp: rd_def split: if_splits)

declare castlePathLoop.simps [simp del]

partial_function (option) transitLoop ::
  "board \<Rightarrow> int \<Rightarrow> color \<Rightarrow> int \<Rightarrow> int \<Rightarrow> int \<Rightarrow> bool option" where
  \<comment> \<open>\<open>for (c = fromCol + step; c !== toCol + step; c += step)\<close> of the castling branch\<close>
  "transitLoop board fromRow opponentColor step stop c =
     (if c \<noteq> stop then
        do {
          attacked \<leftarrow> isSquareAttacked board fromRow c opponentColor;
          if attacked then Some False
          else transitLoop board fromRow opponentColor step stop (c + step)
        }
      else Some True)"

declare transitLoop.simps [code]

definition castleBoard :: "board \<Rightarrow> piece \<Rightarrow> piece \<Rightarrow> int \<Rightarrow> int \<Rightarrow> int \<Rightarrow> board option" where
  \<comment> \<open>the simulated castle: \<open>newBoard\<close> of the castling branch\<close>
  "castleBoard board piece rook fromRow fromCol toCol =
     (let isKingside = toCol > fromCol;
          rookCol = (if isKingside then 7 else 0);
          rookDestCol = (if isKingside then toCol - 1 else toCol + 1)
      in do {
        b1 \<leftarrow> wr (cloneBoard board) fromRow fromCol None;
        b2 \<leftarrow> wr b1 fromRow rookCol None;
        b3 \<leftarrow> wr b2 fromRow toCol (Some piece);
        wr b3 fromRow rookDestCol (Some rook)
      })"

definition castlingMove :: "board \<Rightarrow> piece \<Rightarrow> int \<Rightarrow> int \<Rightarrow> int \<Rightarrow> bool option" where
  \<comment> \<open>branch 1 of \<open>isValidMove\<close> (a king moving two files along its row)\<close>
  "castlingMove board piece fromRow fromCol toCol =
     (let clr = color piece;
          isKingside = toCol > fromCol;
          rookCol = (if isKingside then 7 else 0)
      in do {
        rookCell \<leftarrow> rd board fromRow rookCol;
        case rookCell of
          Val rook \<Rightarrow>
            if type rook \<noteq> Rook \<or> color rook \<noteq> clr then Some False
            else do {
              inCheck \<leftarrow> isKingInCheck board clr;
              if inCheck then Some False
              else do {
                let step = (if isKingside then 1 else - 1);
                pathEmpty \<leftarrow> castlePathLoop board fromRow isKingside (fromCol + step);
                if \<not> pathEmpty then Some False
                else do {
                  transitSafe \<leftarrow>
                    transitLoop board fromRow (opponent clr) step (toCol + step) (fromCol + step);
                  if \<not> transitSafe then Some False
                  else do {
                    newBoard \<leftarrow> castleBoard board piece rook fromRow fromCol toCol;
                    stillInCheck \<leftarrow> isKingInCheck newBoard clr;
                    Some (\<not> stillInCheck)
                  }
                }
              }
            }
        | _ \<Rightarrow> Some False
      })"

datatype enPassantOutcome = IsEnPassant | NotEnPassant | Rejected

definition enPassantCase ::
  "board \<Rightarrow> piece \<Rightarrow> int \<Rightarrow> int \<Rightarrow> int \<Rightarrow> int \<Rightarrow> position option \<Rightarrow> enPassantOutcome option" where
  \<comment> \<open>branch 2 of \<open>isValidMove\<close>: \<open>IsEnPassant\<close> and \<open>NotEnPassant\<close> are the two values of
      the flag \<open>isEnPassant\<close> with which the block is left, \<open>Rejected\<close> its \<open>return false\<close>\<close>
  "enPassantCase board piece fromRow fromCol toRow toCol enPassantTarget =
     (case enPassantTarget of
        None \<Rightarrow> Some NotEnPassant
      | Some ept \<Rightarrow>
          if type piece = Pawn \<and> toRow = row ept \<and> toCol = col ept then
            do {
              target \<leftarrow> rd board toRow toCol;
              if target = Null then
                let captureRow = row ept + (if color piece = White then 1 else - 1);
                    captureCol = col ept
                in if fromRow = captureRow \<and> \<bar>fromCol - captureCol\<bar> = 1 then
                     do {
                       capturedPawn \<leftarrow> rd board captureRow captureCol;
                       case capturedPawn of
                         Val cp \<Rightarrow>
                           if type cp = Pawn \<and> color cp \<noteq> color piece
                           then Some IsEnPassant else Some Rejected
                       | _ \<Rightarrow> Some Rejected
                     }
                   else Some Rejected
              else Some NotEnPassant
            }
          else Some NotEnPassant)"

definition simulateMove ::
  "board \<Rightarrow> piece \<Rightarrow> int \<Rightarrow> int \<Rightarrow> int \<Rightarrow> int \<Rightarrow> bool \<Rightarrow> position option \<Rightarrow> board option" where
  \<comment> \<open>step 4 of \<open>isValidMove\<close>: \<open>newBoard\<close> after the three assignments\<close>
  "simulateMove board piece fromRow fromCol toRow toCol isEnPassant enPassantTarget =
     do {
       b1 \<leftarrow> wr (cloneBoard board) fromRow fromCol None;
       b2 \<leftarrow>
         (case enPassantTarget of
            Some ept \<Rightarrow>
              if isEnPassant then
                wr b1 (row ept + (if color piece = White then 1 else - 1)) (col ept) None
              else Some b1
          | None \<Rightarrow> Some b1);
       wr b2 toRow toCol (Some piece)
     }"

definition isValidMove ::
  "board \<Rightarrow> int \<Rightarrow> int \<Rightarrow> int \<Rightarrow> int \<Rightarrow> position option \<Rightarrow> bool option" where
  "isValidMove board fromRow fromCol toRow toCol enPassantTarget =
     do {
       cell \<leftarrow> rd board fromRow fromCol;
       case cell of
         Val piece \<Rightarrow>
           if type piece = King \<and> fromRow = toRow \<and> \<bar>toCol - fromCol\<bar> = 2 then
             castlingMove board piece fromRow fromCol toCol
           else do {
             ep \<leftarrow> enPassantCase board piece fromRow fromCol toRow toCol enPassantTarget;
             if ep = Rejected then Some False
             else do {
               let isEnPassant = (ep = IsEnPassant);
               pieceMove \<leftarrow>
                 (if isEnPassant then Some True
                  else isValidPieceMove board fromRow fromCol toRow toCol);
               if \<not> pieceMove then Some False
               else do {
                 newBoard \<leftarrow>
                   simulateMove board piece fromRow fromCol toRow toCol isEnPassant
                     enPassantTarget;
                 inCheck \<leftarrow> isKingInCheck newBoard (color piece);
                 Some (\<not> inCheck)
               }
             }
           }
       | _ \<Rightarrow> Some False
     }"

fun destinationLoop ::
  "board \<Rightarrow> int \<Rightarrow> int \<Rightarrow> position option \<Rightarrow> (int \<times> int) list \<Rightarrow> bool option" where
  \<comment> \<open>the two inner loops of \<open>hasAnyLegalMove\<close>\<close>
  "destinationLoop board fromRow fromCol enPassantTarget [] = Some False"
| "destinationLoop board fromRow fromCol enPassantTarget ((toRow, toCol) # rest) =
     do {
       v \<leftarrow> isValidMove board fromRow fromCol toRow toCol enPassantTarget;
       if v then Some True
       else destinationLoop board fromRow fromCol enPassantTarget rest
     }"

fun sourceLoop :: "board \<Rightarrow> color \<Rightarrow> position option \<Rightarrow> (int \<times> int) list \<Rightarrow> bool option" where
  \<comment> \<open>the two outer loops of \<open>hasAnyLegalMove\<close>\<close>
  "sourceLoop board clr enPassantTarget [] = Some False"
| "sourceLoop board clr enPassantTarget ((fromRow, fromCol) # rest) =
     do {
       cell \<leftarrow> rd board fromRow fromCol;
       case cell of
         Val piece \<Rightarrow>
           if color piece \<noteq> clr then sourceLoop board clr enPassantTarget rest
           else do {
             found \<leftarrow> destinationLoop board fromRow fromCol enPassantTarget squares;
             if found then Some True else sourceLoop board clr enPassantTarget rest
           }
       | _ \<Rightarrow> sourceLoop board clr enPassantTarget rest
     }"

definition hasAnyLegalMove :: "board \<Rightarrow> color \<Rightarrow> position option \<Rightarrow> bool option" where
  "hasAnyLegalMove board clr enPassantTarget = sourceLoop board clr enPassantTarget squares"

definition isCheckmate :: "board \<Rightarrow> color \<Rightarrow> position option \<Rightarrow> bool option" where
  "isCheckmate board clr enPassantTarget =
     do {
       inCheck \<leftarrow> isKingInCheck board clr;
       if \<not> inCheck then Some False
       else do { any \<leftarrow> hasAnyLegalMove board clr enPassantTarget; Some (\<not> any) }
     }"

definition isStalemate :: "board \<Rightarrow> color \<Rightarrow> position option \<Rightarrow> bool option" where
  "isStalemate board clr enPassantTarget =
     do {
       inCheck \<leftarrow> isKingInCheck board clr;
       if inCheck then Some False
       else do { any \<leftarrow> hasAnyLegalMove board clr enPassantTarget; Some (\<not> any) }
     }"


section \<open>The board update of the player's move (ChessBoard, \<open>handleSquareClick\<close>)\<close>

definition isEnPassantMove ::
  "board \<Rightarrow> piece \<Rightarrow> int \<Rightarrow> int \<Rightarrow> int \<Rightarrow> position option \<Rightarrow> bool option" where
  "isEnPassantMove board movingPiece fromCol toRow toCol enPassantTarget =
     (case enPassantTarget of
        None \<Rightarrow> Some False
      | Some ept \<Rightarrow>
          if type movingPiece = Pawn \<and> toRow = row ept \<and> toCol = col ept then
            do {
              target \<leftarrow> rd board toRow toCol;
              Some (target = Null \<and> \<bar>fromCol - toCol\<bar> = 1)
            }
          else Some False)"

definition applyMove ::
  "board \<Rightarrow> int \<Rightarrow> int \<Rightarrow> int \<Rightarrow> int \<Rightarrow> position option \<Rightarrow> board option" where
  \<comment> \<open>\<open>newBoard\<close> of \<open>handleSquareClick\<close> once \<open>isValidMove\<close> has accepted the move of the
      player to move, up to and including \<open>newBoard[toRow][toCol] = movingPiece\<close>\<close>
  "applyMove board fromRow fromCol toRow toCol enPassantTarget =
     do {
       movingCell \<leftarrow> rd (cloneBoard board) fromRow fromCol;
       case movingCell of
         Val movingPiece \<Rightarrow>
           do {
             enPassant \<leftarrow>
               isEnPassantMove board movingPiece fromCol toRow toCol enPassantTarget;
             b1 \<leftarrow> wr (cloneBoard board) fromRow fromCol None;
             b2 \<leftarrow>
               (case enPassantTarget of
                  Some ept \<Rightarrow>
                    if enPassant then
                      wr b1 (row ept + (if color movingPiece = White then 1 else - 1))
                        (col ept) None
                    else Some b1
                | None \<Rightarrow> Some b1);
             b3 \<leftarrow>
               (if type movingPiece = King \<and> fromRow = toRow \<and> \<bar>toCol - fromCol\<bar> = 2 then
                  let isKingside = toCol > fromCol;
                      rookFromCol = (if isKingside then 7 else 0);
                      rookToCol = (if isKingside then toCol - 1 else toCol + 1)
                  in do {
                    rookCell \<leftarrow> rd b2 fromRow rookFromCol;
                    case rookCell of
                      Val rook \<Rightarrow>
                        if type rook = Rook then
                          do {
                            b' \<leftarrow> wr b2 fromRow rookFromCol None;
                            wr b' fromRow rookToCol (Some rook)
                          }
                        else Some b2
                    | _ \<Rightarrow> Some b2
                  }
                else Some b2);
             wr b3 toRow toCol (Some movingPiece)
           }
       | _ \<Rightarrow> Some (cloneBoard board)
     }"

section \<open>utils/chessAI.ts\<close>

datatype difficulty = Easy | Medium | Hard

text \<open>
  A JavaScript number as the search uses it: an integer score, or one of the two
  infinities. \<open>Math.max\<close>, \<open>Math.min\<close>, \<open>>\<close> and \<open>===\<close> are those of the linear order
  \<open>-Infinity < n < Infinity\<close>.
\<close>

datatype jsnum = NegInfinity | Num int | Infinity

instantiation jsnum :: linorder
begin

definition less_eq_jsnum :: "jsnum \<Rightarrow> jsnum \<Rightarrow> bool" where
  "less_eq_jsnum a b =
     (case a of
        NegInfinity \<Rightarrow> True
      | Num x \<Rightarrow> (case b of NegInfinity \<Rightarrow> False | Num y \<Rightarrow> x \<le> y | Infinity \<Rightarrow> True)
      | Infinity \<Rightarrow> b = Infinity)"

definition less_jsnum :: "jsnum \<Rightarrow> jsnum \<Rightarrow> bool" where
  "less_jsnum a b = (a \<le> b \<and> \<not> b \<le> (a :: jsnum))"

instance
  by standard (auto simp: less_eq_jsnum_def less_jsnum_def split: jsnum.splits)

end

fun pieceValues :: "pieceType \<Rightarrow> int" where
  "pieceValues Pawn = 1"
| "pieceValues Knight = 3"
| "pieceValues Bishop = 3"
| "pieceValues Rook = 5"
| "pieceValues Queen = 9"
| "pieceValues King = 1000"

fun evaluateLoop :: "board \<Rightarrow> int \<Rightarrow> (int \<times> int) list \<Rightarrow> int option" where
  "evaluateLoop board score [] = Some score"
| "evaluateLoop board score ((r, c) # rest) =
     do {
       cell \<leftarrow> rd board r c;
       case cell of
         Val piece \<Rightarrow>
           let v = pieceValues (type piece)
           in evaluateLoop board (score + (if color piece = Black then v else - v)) rest
       | _ \<Rightarrow> evaluateLoop board score rest
     }"

definition evaluateBoard :: "board \<Rightarrow> int option" where
  "evaluateBoard board = evaluateLoop board 0 squares"

fun movesDestinationLoop ::
  "board \<Rightarrow> int \<Rightarrow> int \<Rightarrow> position list \<Rightarrow> (int \<times> int) list \<Rightarrow> position list option" where
  \<comment> \<open>the two inner loops of \<open>getAllValidMoves\<close>; \<open>isValidMove\<close> is called without an
      en passant target\<close>
  "movesDestinationLoop board fromRow fromCol moves [] = Some moves"
| "movesDestinationLoop board fromRow fromCol moves ((toRow, toCol) # rest) =
     do {
       v \<leftarrow> isValidMove board fromRow fromCol toRow toCol None;
       movesDestinationLoop board fromRow fromCol
         (if v then moves @ [\<lparr>row = fromRow * 8 + fromCol, col = toRow * 8 + toCol\<rparr>]
          else moves)
         rest
     }"

fun movesSourceLoop ::
  "board \<Rightarrow> color \<Rightarrow> position list \<Rightarrow> (int \<times> int) list \<Rightarrow> position list option" where
  \<comment> \<open>the two outer loops of \<open>getAllValidMoves\<close>\<close>
  "movesSourceLoop board clr moves [] = Some moves"
| "movesSourceLoop board clr moves ((fromRow, fromCol) # rest) =
     do {
       cell \<leftarrow> rd board fromRow fromCol;
       case cell of
         Val piece \<Rightarrow>
           if color piece = clr then
             do {
               moves' \<leftarrow> movesDestinationLoop board fromRow fromCol moves squares;
               movesSourceLoop board clr moves' rest
             }
           else movesSourceLoop board clr moves rest
       | _ \<Rightarrow> movesSourceLoop board clr moves rest
     }"

definition getAllValidMoves :: "board \<Rightarrow> color \<Rightarrow> position list option" where
  "getAllValidMoves board clr = movesSourceLoop board clr [] squares"

definition jsRemainder :: "int \<Rightarrow> int \<Rightarrow> int" where
  \<comment> \<open>JavaScript's \<open>%\<close> on integers: the result has the sign of the dividend\<close>
  "jsRemainder a n = (if 0 \<le> a then a mod n else - ((- a) mod n))"

definition decodeIndex :: "int \<Rightarrow> position" where
  "decodeIndex index = \<lparr>row = index div 8, col = jsRemainder index 8\<rparr>"

definition makeMove :: "board \<Rightarrow> position \<Rightarrow> position \<Rightarrow> board option" where
  "makeMove board fromPos toPos =
     (let newBoard = cloneBoard board;
          src = decodeIndex (row fromPos);
          dst = decodeIndex (col toPos)
      in do {
        movingCell \<leftarrow> rd newBoard (row src) (col src);
        case movingCell of
          Val movingPiece \<Rightarrow>
            do {
              b1 \<leftarrow> wr newBoard (row src) (col src) None;
              let finalPiece =
                (if type movingPiece = Pawn \<and> (row dst = 0 \<or> row dst = 7)
                 then movingPiece \<lparr>type := Queen\<rparr> else movingPiece);
              wr b1 (row dst) (col dst) (Some finalPiece)
            }
        | _ \<Rightarrow> Some newBoard
      })"

definition aiMakeMove :: "board \<Rightarrow> position \<Rightarrow> board option" where
  \<comment> \<open>\<open>makeMove(board, { row: move.row, col: 0 }, { row: 0, col: move.col })\<close>\<close>
  "aiMakeMove board move =
     makeMove board \<lparr>row = row move, col = 0\<rparr> \<lparr>row = 0, col = col move\<rparr>"

fun maxLoop ::
  "(board \<Rightarrow> jsnum option) \<Rightarrow> board \<Rightarrow> jsnum \<Rightarrow> position list \<Rightarrow> jsnum option" where
  \<comment> \<open>the loop of a maximizing node; \<open>child\<close> is the recursive call of \<open>minimax\<close>\<close>
  "maxLoop child board maxEval [] = Some maxEval"
| "maxLoop child board maxEval (move # rest) =
     do {
       newBoard \<leftarrow> aiMakeMove board move;
       evalScore \<leftarrow> child newBoard;
       maxLoop child board (max maxEval evalScore) rest
     }"

fun minLoop ::
  "(board \<Rightarrow> jsnum option) \<Rightarrow> board \<Rightarrow> jsnum \<Rightarrow> position list \<Rightarrow> jsnum option" where
  \<comment> \<open>the loop of a minimizing node\<close>
  "minLoop child board minEval [] = Some minEval"
| "minLoop child board minEval (move # rest) =
     do {
       newBoard \<leftarrow> aiMakeMove board move;
       evalScore \<leftarrow> child newBoard;
       minLoop child board (min minEval evalScore) rest
     }"

fun minimax :: "board \<Rightarrow> nat \<Rightarrow> bool \<Rightarrow> jsnum option" where
  "minimax board 0 isMaximizing = map_option Num (evaluateBoard board)"
| "minimax board (Suc depth) isMaximizing =
     (let clr = (if isMaximizing then Black else White)
      in do {
        moves \<leftarrow> getAllValidMoves board clr;
        if length moves = 0 then
          do {
            inCheck \<leftarrow> isKingInCheck board clr;
            if inCheck then Some (if isMaximizing then NegInfinity else Infinity)
            else Some (Num 0)
          }
        else if isMaximizing then
          maxLoop (\<lambda>newBoard. minimax newBoard depth False) board NegInfinity moves
        else
          minLoop (\<lambda>newBoard. minimax newBoard depth True) board Infinity moves
      })"

definition randomIndex :: "real \<Rightarrow> nat \<Rightarrow> int" where
  \<comment> \<open>\<open>Math.floor(Math.random() * n)\<close>, with \<open>rnd\<close> the value of \<open>Math.random()\<close>\<close>
  "randomIndex rnd n = \<lfloor>rnd * real n\<rfloor>"

definition nthJs :: "'a list \<Rightarrow> int \<Rightarrow> 'a js" where
  \<comment> \<open>\<open>xs[i]\<close>: \<open>undefined\<close> outside the array\<close>
  "nthJs xs i = (if 0 \<le> i \<and> i < int (length xs) then Val (xs ! nat i) else Undefined)"

definition capturedPieceScore :: "board \<Rightarrow> position \<Rightarrow> int option" where
  \<comment> \<open>\<open>score\<close> of a move in the \<open>'medium'\<close> loop\<close>
  "capturedPieceScore board move =
     (let dst = decodeIndex (col move)
      in do {
        capturedPiece \<leftarrow> rd board (row dst) (col dst);
        Some (case capturedPiece of Val p \<Rightarrow> pieceValues (type p) | _ \<Rightarrow> 0)
      })"

fun mediumLoop ::
  "board \<Rightarrow> position list \<Rightarrow> jsnum \<Rightarrow> position list \<Rightarrow> position list option" where
  "mediumLoop board bestMoves bestScore [] = Some bestMoves"
| "mediumLoop board bestMoves bestScore (move # rest) =
     do {
       score \<leftarrow> capturedPieceScore board move;
       if Num score > bestScore then mediumLoop board [move] (Num score) rest
       else if Num score = bestScore then mediumLoop board (bestMoves @ [move]) bestScore rest
       else mediumLoop board bestMoves bestScore rest
     }"

fun hardLoop ::
  "board \<Rightarrow> position js \<Rightarrow> jsnum \<Rightarrow> position list \<Rightarrow> position js option" where
  "hardLoop board bestMove bestValue [] = Some bestMove"
| "hardLoop board bestMove bestValue (move # rest) =
     do {
       newBoard \<leftarrow> aiMakeMove board move;
       v \<leftarrow> minimax newBoard 1 False;
       if v > bestValue then hardLoop board (Val move) v rest
       else hardLoop board bestMove bestValue rest
     }"

definition getAIMove :: "board \<Rightarrow> difficulty \<Rightarrow> real \<Rightarrow> position js option" where
  \<comment> \<open>\<open>rnd\<close> is the value \<open>Math.random()\<close> returns when it is called\<close>
  "getAIMove board difficulty rnd =
     do {
       moves \<leftarrow> getAllValidMoves board Black;
       if length moves = 0 then Some Null
       else
         (case difficulty of
            Easy \<Rightarrow> Some (nthJs moves (randomIndex rnd (length moves)))
          | Medium \<Rightarrow>
              do {
                bestMoves \<leftarrow> mediumLoop board [] NegInfinity moves;
                Some (nthJs bestMoves (randomIndex rnd (length bestMoves)))
              }
          | Hard \<Rightarrow> hardLoop board Null NegInfinity moves)
     }"

section \<open>The board update of the computer's move (ChessBoard, the effect that plays it)\<close>

definition nextEnPassant :: "piece \<Rightarrow> int \<Rightarrow> int \<Rightarrow> int \<Rightarrow> position option" where
  \<comment> \<open>\<open>nextEnPassant\<close>: the square a pawn skips when it moves two rows, \<open>null\<close> otherwise\<close>
  "nextEnPassant movingPiece fromRow toRow toCol =
     (if type movingPiece = Pawn \<and> \<bar>toRow - fromRow\<bar> = 2
      then Some \<lparr>row = (toRow + fromRow) div 2, col = toCol\<rparr> else None)"

definition aiApplyMove ::
  "board \<Rightarrow> position option \<Rightarrow> position \<Rightarrow> (board \<times> position option) option" where
  \<comment> \<open>\<open>newBoard\<close> and \<open>nextEnPassant\<close> of the effect that plays the move \<open>getAIMove\<close>
      returned, as it passes them to \<open>setBoard\<close> and \<open>setEnPassantTarget\<close>; the effect
      sets neither when the source square is empty\<close>
  "aiApplyMove board enPassantTarget aiMove =
     (let fromRow = row aiMove div 8; fromCol = jsRemainder (row aiMove) 8;
          toRow = col aiMove div 8; toCol = jsRemainder (col aiMove) 8
      in do {
        movingCell \<leftarrow> rd (cloneBoard board) fromRow fromCol;
        case movingCell of
          Val movingPiece \<Rightarrow>
            do {
              enPassant \<leftarrow>
                isEnPassantMove board movingPiece fromCol toRow toCol enPassantTarget;
              b1 \<leftarrow> wr (cloneBoard board) fromRow fromCol None;
              b2 \<leftarrow>
                (case enPassantTarget of
                   Some ept \<Rightarrow>
                     if enPassant then
                       wr b1 (row ept + (if color movingPiece = White then 1 else - 1))
                         (col ept) None
                     else Some b1
                 | None \<Rightarrow> Some b1);
              b3 \<leftarrow>
                (if type movingPiece = King \<and> fromRow = toRow \<and> \<bar>toCol - fromCol\<bar> = 2 then
                   let isKingside = toCol > fromCol;
                       rookFromCol = (if isKingside then 7 else 0);
                       rookToCol = (if isKingside then toCol - 1 else toCol + 1)
                   in do {
                     rookCell \<leftarrow> rd b2 fromRow rookFromCol;
                     case rookCell of
                       Val rook \<Rightarrow>
                         if type rook = Rook then
                           do {
                             b' \<leftarrow> wr b2 fromRow rookFromCol None;
                             wr b' fromRow rookToCol (Some rook)
                           }
                         else Some b2
                     | _ \<Rightarrow> Some b2
                   }
                 else Some b2);
              let finalPiece =
                (if type movingPiece = Pawn \<and> (toRow = 0 \<or> toRow = 7)
                 then movingPiece \<lparr>type := Queen\<rparr> else movingPiece);
              b4 \<leftarrow> wr b3 toRow toCol (Some finalPiece);
              Some (b4, nextEnPassant movingPiece fromRow toRow toCol)
            }
        | _ \<Rightarrow> Some (board, enPassantTarget)
      })"

section \<open>Auxiliary notions used in the statements\<close>

definition returns :: "'a option \<Rightarrow> bool" where
  \<comment> \<open>the call returns a value: no \<open>TypeError\<close>, no endless loop\<close>
  "returns m = (m \<noteq> None)"

definition targetOnBoard :: "position option \<Rightarrow> bool" where
  \<comment> \<open>an en passant target that is \<open>null\<close> or a square of the grid\<close>
  "targetOnBoard enPassantTarget =
     (case enPassantTarget of None \<Rightarrow> True | Some t \<Rightarrow> onBoard (row t) (col t))"

definition legalMoveExists :: "board \<Rightarrow> color \<Rightarrow> position option \<Rightarrow> bool" where
  \<comment> \<open>some square holds a piece of that color from which \<open>isValidMove\<close> accepts some
      destination\<close>
  "legalMoveExists board clr enPassantTarget =
     (\<exists>(fromRow, fromCol) \<in> set squares. \<exists>(toRow, toCol) \<in> set squares.
        (case board fromRow fromCol of Some piece \<Rightarrow> color piece = clr | None \<Rightarrow> False) \<and>
        isValidMove board fromRow fromCol toRow toCol enPassantTarget = Some True)"

definition hasColor :: "board \<Rightarrow> color \<Rightarrow> int \<Rightarrow> int \<Rightarrow> bool" where
  \<comment> \<open>the square holds a piece of that color\<close>
  "hasColor board clr r c = (case board r c of Some piece \<Rightarrow> color piece = clr | None \<Rightarrow> False)"

definition encodeMove :: "int \<Rightarrow> int \<Rightarrow> int \<times> int \<Rightarrow> position" where
  \<comment> \<open>the encoded move \<open>getAllValidMoves\<close> pushes\<close>
  "encodeMove fromRow fromCol to =
     \<lparr>row = fromRow * 8 + fromCol, col = fst to * 8 + snd to\<rparr>"

definition legalMoves :: "board \<Rightarrow> color \<Rightarrow> position list" where
  \<comment> \<open>the legal moves of a color without en passant target, in enumeration order\<close>
  "legalMoves board clr =
     concat (map (\<lambda>(fromRow, fromCol).
        if hasColor board clr fromRow fromCol then
          map (encodeMove fromRow fromCol)
            (filter (\<lambda>(toRow, toCol).
               isValidMove board fromRow fromCol toRow toCol None = Some True) squares)
        else []) squares)"

definition legalEncodedMove :: "board \<Rightarrow> color \<Rightarrow> position \<Rightarrow> bool" where
  \<comment> \<open>\<open>move\<close> encodes a legal move of the color: both indices are in 0..63, the decoded
      source holds a piece of the color, and \<open>isValidMove\<close>, called without en passant
      target, accepts the decoded move\<close>
  "legalEncodedMove board clr move =
     (let src = decodeIndex (row move); dst = decodeIndex (col move)
      in 0 \<le> row move \<and> row move < 64 \<and> 0 \<le> col move \<and> col move < 64 \<and>
         hasColor board clr (row src) (col src) \<and>
         isValidMove board (row src) (col src) (row dst) (col dst) None = Some True)"

definition destinationValue :: "board \<Rightarrow> position \<Rightarrow> int" where
  \<comment> \<open>the value of the piece standing on the decoded destination of an encoded move,
      0 for an empty square\<close>
  "destinationValue board move =
     (let dst = decodeIndex (col move)
      in case board (row dst) (col dst) of Some p \<Rightarrow> pieceValues (type p) | None \<Rightarrow> 0)"

definition moveValue :: "board \<Rightarrow> position \<Rightarrow> jsnum option" where
  \<comment> \<open>the value the \<open>'hard'\<close> loop computes for a move: \<open>minimax(newBoard, 1, false)\<close> on
      the board after the move\<close>
  "moveValue board move =
     do { newBoard \<leftarrow> aiMakeMove board move; minimax newBoard 1 False }"

definition castlingEncodedMove :: "board \<Rightarrow> position \<Rightarrow> bool" where
  \<comment> \<open>\<open>isCastlingMove\<close> of the effect, for an encoded move: a king that moves two columns
      along its row\<close>
  "castlingEncodedMove board move =
     (let src = decodeIndex (row move); dst = decodeIndex (col move)
      in case board (row src) (col src) of
           Some movingPiece \<Rightarrow>
             type movingPiece = King \<and> row src = row dst \<and> \<bar>col dst - col src\<bar> = 2
         | None \<Rightarrow> False)"

definition appliedValue :: "board \<Rightarrow> position option \<Rightarrow> position \<Rightarrow> jsnum option" where
  \<comment> \<open>\<open>minimax(newBoard, 1, false)\<close> on the board the effect produces for the move\<close>
  "appliedValue board enPassantTarget move =
     do {
       (newBoard, nextTarget) \<leftarrow> aiApplyMove board enPassantTarget move;
       minimax newBoard 1 False
     }"

definition replyAccepted ::
  "board \<Rightarrow> position option \<Rightarrow> position \<Rightarrow> int \<Rightarrow> int \<Rightarrow> int \<Rightarrow> int \<Rightarrow> bool option" where
  \<comment> \<open>whether \<open>isValidMove\<close> accepts the reply from \<open>(fromRow, fromCol)\<close> to
      \<open>(toRow, toCol)\<close> on the board and with the en passant target the effect produces
      for the move\<close>
  "replyAccepted board enPassantTarget move fromRow fromCol toRow toCol =
     do {
       (newBoard, nextTarget) \<leftarrow> aiApplyMove board enPassantTarget move;
       isValidMove newBoard fromRow fromCol toRow toCol nextTarget
     }"

definition replyBalance ::
  "board \<Rightarrow> position option \<Rightarrow> position \<Rightarrow> int \<Rightarrow> int \<Rightarrow> int \<Rightarrow> int \<Rightarrow> int option" where
  \<comment> \<open>\<open>evaluateBoard\<close> after the move, played by the effect, and the reply, played by
      \<open>handleSquareClick\<close>\<close>
  "replyBalance board enPassantTarget move fromRow fromCol toRow toCol =
     do {
       (newBoard, nextTarget) \<leftarrow> aiApplyMove board enPassantTarget move;
       replyBoard \<leftarrow> applyMove newBoard fromRow fromCol toRow toCol nextTarget;
       evaluateBoard replyBoard
     }"

subsection \<open>Concrete positions on which the theorems are instantiated\<close>

definition boardOf :: "((int \<times> int) \<times> piece) list \<Rightarrow> board" where
  \<comment> \<open>the board that holds the listed pieces and nothing else\<close>
  "boardOf ps = (\<lambda>r c. map_of ps (r, c))"

definition pc :: "pieceType \<Rightarrow> color \<Rightarrow> piece" where
  "pc t clr = \<lparr>type = t, color = clr\<rparr>"

definition castlingPosition :: board where
  \<comment> \<open>a black king on its home square with its king-side rook\<close>
  "castlingPosition =
     boardOf [((0, 4), pc King Black), ((0, 7), pc Rook Black), ((7, 4), pc King White)]"

definition enPassantPosition :: board where
  \<comment> \<open>black has just played the pawn from (1,5) to (3,5), past the white pawn on (3,4)\<close>
  "enPassantPosition =
     boardOf [((0, 4), pc King Black), ((7, 4), pc King White),
              ((3, 4), pc Pawn White), ((3, 5), pc Pawn Black)]"

definition matePosition :: board where
  \<comment> \<open>the black king in the corner, mated by the queen the white king protects\<close>
  "matePosition =
     boardOf [((0, 0), pc King Black), ((1, 1), pc Queen White), ((2, 2), pc King White)]"

definition castleRookPosition :: board where
  \<comment> \<open>a black king two columns from its corner rook; the black pawn can take the white pawn\<close>
  "castleRookPosition =
     boardOf [((0, 5), pc King Black), ((0, 7), pc Rook Black), ((7, 4), pc King White),
              ((1, 0), pc Pawn Black), ((2, 1), pc Pawn White)]"

definition pawnThreat :: board where
  \<comment> \<open>a white pawn one step from promotion next to the black king\<close>
  "pawnThreat =
     boardOf [((0, 0), pc King Black), ((1, 1), pc Pawn White), ((7, 7), pc King White)]"

definition doubleStepPosition :: board where
  \<comment> \<open>a black pawn on its start row; the white pawn on the next column can take it
      after one step, and en passant after two\<close>
  "doubleStepPosition =
     boardOf [((1, 3), pc Pawn Black), ((3, 2), pc Pawn White),
              ((7, 0), pc King White), ((7, 7), pc King Black)]"

definition rookTrapPosition :: board where
  \<comment> \<open>black may castle king-side; the white pawn before the black king then takes the
      rook on (0,5)\<close>
  "rookTrapPosition =
     boardOf [((0, 4), pc King Black), ((0, 7), pc Rook Black), ((1, 7), pc Pawn Black),
              ((1, 0), pc Pawn White), ((1, 4), pc Pawn White), ((2, 4), pc King White)]"

section \<open>Reads, writes and loops return on the grid\<close>

lemma set_indices: "set indices = {0..7}"
  by (auto simp: indices_def)

lemma set_squares: "set squares = {(r, c). onBoard r c}"
  by (auto simp: squares_def set_indices onBoard_def)

lemma rd_onBoard:
  "onBoard r c \<Longrightarrow> rd board r c = Some (case board r c of None \<Rightarrow> Null | Some p \<Rightarrow> Val p)"
  by (simp add: rd_def onBoard_def)

lemma rd_row: "0 \<le> r \<Longrightarrow> r \<le> 7 \<Longrightarrow> rd board r c \<noteq> None"
  by (simp add: rd_def)

lemma rd_Null: "rd board r c = Some Null \<longleftrightarrow> onBoard r c \<and> board r c = None"
  by (auto simp: rd_def onBoard_def split: option.splits)

lemma rd_Val: "rd board r c = Some (Val p) \<longleftrightarrow> onBoard r c \<and> board r c = Some p"
  by (auto simp: rd_def onBoard_def split: option.splits)

lemma wr_row: "0 \<le> r \<Longrightarrow> r \<le> 7 \<Longrightarrow> wr board r c v \<noteq> None"
  by (simp add: wr_def)

lemma wr_onBoard: "onBoard r c \<Longrightarrow> wr board r c v = Some (board (r := (board r) (c := v)))"
  by (simp add: wr_def onBoard_def)

lemma pathLoop_returns:
  assumes "dr \<in> {- 1, 0, 1}" "dc \<in> {- 1, 0, 1}" "dr \<noteq> 0 \<or> dc \<noteq> 0"
  shows "onBoard cr cc \<Longrightarrow> onBoard (cr + int n * dr) (cc + int n * dc) \<Longrightarrow>
    pathLoop board dr dc (cr + int n * dr) (cc + int n * dc) cr cc \<noteq> None"
proof (induction n arbitrary: cr cc)
  case 0
  show ?case by (subst pathLoop.simps) simp
next
  case (Suc n)
  have ne: "cr \<noteq> cr + int (Suc n) * dr \<or> cc \<noteq> cc + int (Suc n) * dc"
    using assms by auto
  have nxt: "onBoard (cr + dr) (cc + dc)"
    using Suc.prems assms(1,2) by (auto simp: onBoard_def algebra_simps)
  have eq: "cr + int (Suc n) * dr = (cr + dr) + int n * dr"
    "cc + int (Suc n) * dc = (cc + dc) + int n * dc"
    by (simp_all add: algebra_simps)
  have "pathLoop board dr dc (cr + int (Suc n) * dr) (cc + int (Suc n) * dc)
          (cr + dr) (cc + dc) \<noteq> None"
    unfolding eq using Suc.IH [OF nxt] Suc.prems(2) unfolding eq by simp
  then show ?case
    using ne Suc.prems(1)
    by (subst pathLoop.simps) (auto simp: rd_onBoard)
qed

lemma isPathClear_returns:
  assumes "onBoard fr fc" "onBoard tr tc"
    and "\<bar>tr - fr\<bar> = 0 \<or> \<bar>tc - fc\<bar> = 0 \<or> \<bar>tr - fr\<bar> = \<bar>tc - fc\<bar>"
    and "fr \<noteq> tr \<or> fc \<noteq> tc"
  shows "isPathClear board fr fc tr tc \<noteq> None"
proof -
  define dr :: int where "dr = (if tr > fr then 1 else if tr < fr then - 1 else 0)"
  define dc :: int where "dc = (if tc > fc then 1 else if tc < fc then - 1 else 0)"
  define n where "n = nat (max \<bar>tr - fr\<bar> \<bar>tc - fc\<bar> - 1)"
  have d: "dr \<in> {- 1, 0, 1}" "dc \<in> {- 1, 0, 1}" "dr \<noteq> 0 \<or> dc \<noteq> 0"
    using assms(4) by (auto simp: dr_def dc_def)
  have t: "tr = (fr + dr) + int n * dr" "tc = (fc + dc) + int n * dc"
    using assms(3,4) by (auto simp: dr_def dc_def n_def algebra_simps split: if_splits)
  have s: "onBoard (fr + dr) (fc + dc)"
    using assms(1,2) by (auto simp: onBoard_def dr_def dc_def)
  have "pathLoop board dr dc ((fr + dr) + int n * dr) ((fc + dc) + int n * dc)
               (fr + dr) (fc + dc) \<noteq> None"
    using pathLoop_returns [OF d s] assms(2) t by simp
  then show ?thesis
    using t unfolding isPathClear_def Let_def dr_def [symmetric] dc_def [symmetric] by simp
qed

lemma pawnMove_returns:
  "0 \<le> fr \<Longrightarrow> fr \<le> 7 \<Longrightarrow> pawnMove board p t fr fc tr tc \<noteq> None"
  by (auto simp: pawnMove_def Let_def rd_def)

lemma isValidPieceMove_returns:
  assumes "0 \<le> fr" "fr \<le> 7"
  shows "isValidPieceMove board fr fc tr tc \<noteq> None"
proof (cases "onBoard tr tc")
  case False
  then show ?thesis by (auto simp: isValidPieceMove_def onBoard_def)
next
  case to: True
  obtain cell where cell: "rd board fr fc = Some cell"
    using rd_row [OF assms] by blast
  show ?thesis
  proof (cases cell)
    case (Val p)
    then have src: "onBoard fr fc" using cell by (simp add: rd_Val)
    obtain t where t: "rd board tr tc = Some t"
      using to by (auto simp: rd_onBoard)
    show ?thesis
    proof (cases "fr = tr \<and> fc = tc")
      case True
      then show ?thesis using to cell Val by (simp add: isValidPieceMove_def onBoard_def)
    next
      case ne: False
      have path: "\<bar>tr - fr\<bar> = 0 \<or> \<bar>tc - fc\<bar> = 0 \<or> \<bar>tr - fr\<bar> = \<bar>tc - fc\<bar>
          \<Longrightarrow> isPathClear board fr fc tr tc \<noteq> None"
        using isPathClear_returns [OF src to] ne by blast
      show ?thesis
        using to cell Val t ne path pawnMove_returns [OF assms, of board p t fc tr tc]
        by (cases "type p")
           (auto simp: isValidPieceMove_def onBoard_def Let_def)
    qed
  qed (use to cell in \<open>auto simp: isValidPieceMove_def onBoard_def\<close>)
qed


lemma findKingLoop_result:
  "\<forall>(r, c) \<in> set sqs. onBoard r c \<Longrightarrow>
   findKingLoop board clr sqs = Some Null \<or>
   (\<exists>k. findKingLoop board clr sqs = Some (Val k) \<and> onBoard (row k) (col k))"
  by (induction sqs) (auto simp: rd_onBoard split: option.splits)

lemma findKingPosition_result:
  "findKingPosition board clr = Some Null \<or>
   (\<exists>k. findKingPosition board clr = Some (Val k) \<and> onBoard (row k) (col k))"
  unfolding findKingPosition_def
  by (rule findKingLoop_result) (simp add: set_squares)

lemma attackLoop_returns:
  "\<forall>(r', c') \<in> set sqs. onBoard r' c' \<Longrightarrow> attackLoop board r c byColor sqs \<noteq> None"
proof (induction sqs)
  case Nil
  show ?case by simp
next
  case (Cons sq sqs)
  obtain r' c' where sq: "sq = (r', c')" by (cases sq)
  have on: "onBoard r' c'" using Cons.prems sq by simp
  have ih: "attackLoop board r c byColor sqs \<noteq> None"
    using Cons by simp
  have pm: "isValidPieceMove board r' c' r c \<noteq> None"
    using on by (intro isValidPieceMove_returns) (simp_all add: onBoard_def)
  show ?case
    using ih pm on by (auto simp: sq rd_onBoard split: option.splits)
qed

lemma isSquareAttacked_returns: "isSquareAttacked board r c byColor \<noteq> None"
  unfolding isSquareAttacked_def
  by (rule attackLoop_returns) (simp add: set_squares)

lemma isKingInCheck_returns: "isKingInCheck board clr \<noteq> None"
  using findKingPosition_result [of board clr] isSquareAttacked_returns
  by (auto simp: isKingInCheck_def)

section \<open>The branches of \<open>isValidMove\<close>\<close>

lemma castlePathLoop_returns:
  "0 \<le> fr \<Longrightarrow> fr \<le> 7 \<Longrightarrow> castlePathLoop board fr ks c \<noteq> None"
proof (induction board fr ks c rule: castlePathLoop.induct)
  case (1 board fromRow isKingside c)
  obtain cell where cell: "rd board fromRow c = Some cell"
    using rd_row [OF "1.prems"] by blast
  show ?case
    using "1.IH" [of cell] "1.prems" cell
    by (subst castlePathLoop.simps) auto
qed

lemma transitLoop_stop: "transitLoop board fr opp step stop stop = Some True"
  by (subst transitLoop.simps) simp

lemma transitLoop_step:
  "c \<noteq> stop \<Longrightarrow> transitLoop board fr opp step stop c =
     do {
       attacked \<leftarrow> isSquareAttacked board fr c opp;
       if attacked then Some False else transitLoop board fr opp step stop (c + step)
     }"
  by (subst transitLoop.simps) simp

lemma transitLoop_two:
  assumes "step \<noteq> 0"
  shows "transitLoop board fr opp step (c + 2 * step) c =
     do {
       a1 \<leftarrow> isSquareAttacked board fr c opp;
       if a1 then Some False
       else do {
         a2 \<leftarrow> isSquareAttacked board fr (c + step) opp;
         if a2 then Some False else Some True
       }
     }"
proof -
  have e: "c + step + step = c + 2 * step" by simp
  have ne: "c \<noteq> c + 2 * step" "c + step \<noteq> c + 2 * step" using assms by simp_all
  show ?thesis
    unfolding transitLoop_step [OF ne(1)] transitLoop_step [OF ne(2)] e transitLoop_stop ..
qed


lemma castlePathLoop_eq:
  "0 \<le> fr \<Longrightarrow> fr \<le> 7 \<Longrightarrow> 0 \<le> c \<Longrightarrow> c \<le> 7 \<Longrightarrow>
   castlePathLoop board fr ks c =
     Some (\<forall>c'. (if ks then c \<le> c' \<and> c' < 7 else 0 < c' \<and> c' \<le> c) \<longrightarrow> board fr c' = None)"
proof (induction board fr ks c rule: castlePathLoop.induct)
  case (1 board fromRow isKingside c)
  have on: "onBoard fromRow c" using "1.prems" by (simp add: onBoard_def)
  show ?case
  proof (cases "c = (if isKingside then 7 else 0)")
    case True
    then show ?thesis
      by (subst castlePathLoop.simps) (auto split: if_splits)
  next
    case ne: False
    show ?thesis
    proof (cases "board fromRow c")
      case None
      have ih: "castlePathLoop board fromRow isKingside (c + (if isKingside then 1 else - 1)) =
        Some (\<forall>c'. (if isKingside then c + (if isKingside then 1 else - 1) \<le> c' \<and> c' < 7
                     else 0 < c' \<and> c' \<le> c + (if isKingside then 1 else - 1))
                 \<longrightarrow> board fromRow c' = None)"
        using "1.IH" [of Null] ne None "1.prems" on
        by (auto simp: rd_onBoard split: if_splits)
      have split: "(\<forall>c'. (if isKingside then c \<le> c' \<and> c' < 7 else 0 < c' \<and> c' \<le> c)
                 \<longrightarrow> board fromRow c' = None) \<longleftrightarrow>
            (\<forall>c'. (if isKingside then c + (if isKingside then 1 else - 1) \<le> c' \<and> c' < 7
                     else 0 < c' \<and> c' \<le> c + (if isKingside then 1 else - 1))
                 \<longrightarrow> board fromRow c' = None)"
      proof (cases isKingside)
        case True
        have "\<And>c'. c \<le> c' \<longleftrightarrow> c' = c \<or> c + 1 \<le> c'" by auto
        then show ?thesis using True None by auto
      next
        case False
        have "\<And>c'. c' \<le> c \<longleftrightarrow> c' = c \<or> c' \<le> c - 1" by auto
        then show ?thesis using False None by auto
      qed
      show ?thesis
        using ne None on
        by (subst castlePathLoop.simps) (simp add: rd_onBoard ih split)
    next
      case (Some q)
      have "\<not> (\<forall>c'. (if isKingside then c \<le> c' \<and> c' < 7 else 0 < c' \<and> c' \<le> c)
                 \<longrightarrow> board fromRow c' = None)"
        using Some ne "1.prems" by (auto split: if_splits intro!: exI [of _ c])
      then show ?thesis
        using ne Some on
        by (subst castlePathLoop.simps) (simp add: rd_onBoard)
    qed
  qed
qed

lemma returns_Some [simp]: "returns (Some x)"
  by (simp add: returns_def)

lemma returns_bind:
  "returns m \<Longrightarrow> (\<And>x. m = Some x \<Longrightarrow> returns (f x)) \<Longrightarrow> returns (Option.bind m f)"
  by (cases m) (auto simp: returns_def)

lemmas returns1 =
  rd_row [folded returns_def] wr_row [folded returns_def]
  isKingInCheck_returns [folded returns_def]
  isSquareAttacked_returns [folded returns_def]
  castlePathLoop_returns [folded returns_def]
  isValidPieceMove_returns [folded returns_def]

lemma castleBoard_returns: "0 \<le> fr \<Longrightarrow> fr \<le> 7 \<Longrightarrow> returns (castleBoard board p rook fr fc tc)"
  unfolding castleBoard_def Let_def
  by (auto intro!: returns_bind returns1)

lemma transitLoop_returns:
  assumes "\<bar>tc - fc\<bar> = 2"
  shows "returns (transitLoop board fr opp (if tc > fc then 1 else - 1)
           (tc + (if tc > fc then 1 else - 1)) (fc + (if tc > fc then 1 else - 1)))"
proof -
  define step :: int where "step = (if tc > fc then 1 else - 1)"
  have tc: "tc + step = (fc + step) + 2 * step" and step: "step \<noteq> 0"
    using assms by (auto simp: step_def)
  have "returns (transitLoop board fr opp step (tc + step) (fc + step))"
    unfolding tc transitLoop_two [OF step]
    by (auto intro!: returns_bind returns1)
  then show ?thesis by (simp only: step_def)
qed

lemma castlingMove_returns:
  assumes "0 \<le> fr" "fr \<le> 7" "\<bar>tc - fc\<bar> = 2"
  shows "returns (castlingMove board p fr fc tc)"
proof -
  have t1: "fc < tc \<Longrightarrow> returns (transitLoop board fr opp 1 (tc + 1) (fc + 1))" for opp
    using transitLoop_returns [OF assms(3), of board fr opp] by simp
  have t2: "\<not> fc < tc \<Longrightarrow> returns (transitLoop board fr opp (- 1) (tc - 1) (fc - 1))" for opp
    using transitLoop_returns [OF assms(3), of board fr opp] by simp
  show ?thesis
    unfolding castlingMove_def Let_def
    using assms(1,2)
    by (auto intro!: returns_bind returns1 t1 t2 castleBoard_returns split: js.splits)
qed

lemma enPassantCase_returns:
  assumes "0 \<le> fr" "fr \<le> 7" "targetOnBoard ep \<or> (0 \<le> tr \<and> tr \<le> 7)"
  shows "returns (enPassantCase board p fr fc tr tc ep)"
proof (cases ep)
  case None
  then show ?thesis by (simp add: enPassantCase_def)
next
  case (Some t)
  show ?thesis
  proof (cases "type p = Pawn \<and> tr = row t \<and> tc = col t")
    case False
    then show ?thesis using Some by (auto simp: enPassantCase_def)
  next
    case True
    have tr: "0 \<le> row t" "row t \<le> 7"
      using assms(3) Some True by (auto simp: targetOnBoard_def onBoard_def)
    show ?thesis
      using Some True tr assms(1,2)
      unfolding enPassantCase_def Let_def
      by (auto intro!: returns_bind returns1 split: js.splits)
  qed
qed

lemma enPassantCase_IsEnPassant:
  "enPassantCase board p fr fc tr tc ep = Some IsEnPassant \<longleftrightarrow>
     (\<exists>t cp. ep = Some t \<and> type p = Pawn \<and> tr = row t \<and> tc = col t \<and>
        onBoard tr tc \<and> board tr tc = None \<and>
        fr = row t + (if color p = White then 1 else - 1) \<and> \<bar>fc - col t\<bar> = 1 \<and>
        onBoard fr (col t) \<and>
        board fr (col t) = Some cp \<and> type cp = Pawn \<and> color cp \<noteq> color p)"
  (is "?l \<longleftrightarrow> ?r")
proof
  assume r: ?r
  then obtain t cp where t: "ep = Some t" "type p = Pawn" "tr = row t" "tc = col t"
    "rd board (row t) (col t) = Some Null"
    "fr = row t + (if color p = White then 1 else - 1)" "\<bar>fc - col t\<bar> = 1"
    "rd board (row t + (if color p = White then 1 else - 1)) (col t) = Some (Val cp)"
    "type cp = Pawn" "color cp \<noteq> color p"
    by (auto simp: rd_Null rd_Val)
  show ?l
    unfolding enPassantCase_def Let_def t(1)
    using t(2-) by simp
next
  assume l: ?l
  obtain t where t: "ep = Some t"
    using l by (cases ep) (auto simp: enPassantCase_def)
  have c1: "type p = Pawn \<and> tr = row t \<and> tc = col t"
    using l by (rule_tac ccontr) (auto simp: enPassantCase_def t)
  note l1 = l [unfolded enPassantCase_def t option.case, simplified c1 [THEN conjunct1] c1 [THEN conjunct2, THEN conjunct1] c1 [THEN conjunct2, THEN conjunct2] Let_def]
  have tgt: "rd board (row t) (col t) = Some Null"
    using l1 by (cases "rd board (row t) (col t)") (auto split: if_splits)
  have c2: "fr = row t + (if color p = White then 1 else - 1) \<and> \<bar>fc - col t\<bar> = 1"
    using l1 tgt by (rule_tac ccontr) (auto split: if_splits)
  obtain cell where cell: "rd board (row t + (if color p = White then 1 else - 1)) (col t) = Some cell"
    using l1 tgt c2 by (cases "rd board (row t + (if color p = White then 1 else - 1)) (col t)") (auto split: if_splits)
  obtain cp where cp: "cell = Val cp" "type cp = Pawn" "color cp \<noteq> color p"
    using l1 tgt c2 cell by (cases cell) (auto split: if_splits)
  show ?r
    using t c1 tgt c2 cell cp
    by (auto simp: rd_Null rd_Val)
qed

lemma isValidPieceMove_True_onBoard:
  "isValidPieceMove board fr fc tr tc = Some True \<Longrightarrow> onBoard tr tc"
  by (auto simp: isValidPieceMove_def onBoard_def split: if_splits)

lemma simulateMove_returns:
  assumes "0 \<le> fr" "fr \<le> 7" "0 \<le> tr" "tr \<le> 7"
    and "isEp \<Longrightarrow> enPassantCase board p fr fc tr tc ep = Some IsEnPassant"
  shows "returns (simulateMove board p fr fc tr tc isEp ep)"
proof (cases isEp)
  case True
  then obtain t where "ep = Some t" "fr = row t + (if color p = White then 1 else - 1)"
    using assms(5) by (auto simp: enPassantCase_IsEnPassant)
  then show ?thesis
    using assms(1-4) unfolding simulateMove_def
    by (auto intro!: returns_bind returns1)
next
  case False
  then show ?thesis
    using assms(1-4) unfolding simulateMove_def
    by (auto intro!: returns_bind returns1 split: option.splits)
qed

lemma isValidMove_returns:
  assumes "0 \<le> fr" "fr \<le> 7" "targetOnBoard ep \<or> (0 \<le> tr \<and> tr \<le> 7)"
  shows "returns (isValidMove board fr fc tr tc ep)"
proof -
  have sim: "returns (simulateMove board p fr fc tr tc (e = IsEnPassant) ep)"
    if "enPassantCase board p fr fc tr tc ep = Some e"
      and "e = IsEnPassant \<or> isValidPieceMove board fr fc tr tc = Some True" for p e
  proof -
    have "onBoard tr tc"
      using that isValidPieceMove_True_onBoard
      by (auto simp: enPassantCase_IsEnPassant)
    then show ?thesis
      using that(1) by (intro simulateMove_returns assms(1,2)) (auto simp: onBoard_def)
  qed
  have simT: "returns (simulateMove board p fr fc tr tc True ep)"
    if "enPassantCase board p fr fc tr tc ep = Some IsEnPassant" for p
    using sim [OF that] by simp
  have simF: "returns (simulateMove board p fr fc tr tc False ep)"
    if "isValidPieceMove board fr fc tr tc = Some True" for p
    using isValidPieceMove_True_onBoard [OF that]
    by (intro simulateMove_returns assms(1,2)) (auto simp: onBoard_def)
  show ?thesis
    unfolding isValidMove_def Let_def
    using assms(1,2)
    by (auto intro!: returns_bind returns1 castlingMove_returns
        enPassantCase_returns [OF assms] simT simF
        split: js.splits)
qed

lemma isValidMove_no_piece:
  "rd board fr fc = Some cell \<Longrightarrow> \<not> truthy cell \<Longrightarrow>
   isValidMove board fr fc tr tc ep = Some False"
  by (cases cell) (simp_all add: isValidMove_def truthy_def)

lemma enPassantCase_off_board:
  "targetOnBoard ep \<Longrightarrow> \<not> onBoard tr tc \<Longrightarrow>
   enPassantCase board p fr fc tr tc ep = Some NotEnPassant"
  by (cases ep) (auto simp: enPassantCase_def targetOnBoard_def)

lemma isValidPieceMove_off_board:
  "\<not> onBoard tr tc \<Longrightarrow> isValidPieceMove board fr fc tr tc = Some False"
  by (auto simp: isValidPieceMove_def onBoard_def)

lemma castleBoard_eq:
  assumes "onBoard fr fc" "onBoard fr tc" "\<bar>tc - fc\<bar> = 2"
  shows "castleBoard board p rook fr fc tc =
     Some (board (fr := (board fr)
       (fc := None, (if tc > fc then 7 else 0) := None, tc := Some p,
        (if tc > fc then tc - 1 else tc + 1) := Some rook)))"
proof -
  have on: "onBoard fr (if tc > fc then 7 else 0)" "onBoard fr (if tc > fc then tc - 1 else tc + 1)"
    using assms by (auto simp: onBoard_def)
  show ?thesis
    unfolding castleBoard_def Let_def
    by (simp add: wr_onBoard assms(1,2) on del: fun_upd_apply) simp
qed

lemma castlingMove_eq:
  assumes "onBoard fr fc" "onBoard fr tc" "\<bar>tc - fc\<bar> = 2"
  shows "castlingMove board p fr fc tc =
     Some (\<exists>rook.
        board fr (if tc > fc then 7 else 0) = Some rook \<and> type rook = Rook \<and>
        color rook = color p \<and>
        isKingInCheck board (color p) = Some False \<and>
        (\<forall>c. (if tc > fc then fc < c \<and> c < 7 else 0 < c \<and> c < fc) \<longrightarrow> board fr c = None) \<and>
        isSquareAttacked board fr (if tc > fc then fc + 1 else fc - 1) (opponent (color p)) =
          Some False \<and>
        isSquareAttacked board fr tc (opponent (color p)) = Some False \<and>
        (\<exists>newBoard. castleBoard board p rook fr fc tc = Some newBoard \<and>
           isKingInCheck newBoard (color p) = Some False))"
proof -
  define ks where "ks = (tc > fc)"
  define step :: int where "step = (if ks then 1 else - 1)"
  define corner :: int where "corner = (if ks then 7 else 0)"
  have row: "0 \<le> fr" "fr \<le> 7" using assms(1) by (simp_all add: onBoard_def)
  have tc: "tc = fc + 2 * step" and step: "step \<noteq> 0"
    using assms(3) by (auto simp: step_def ks_def)
  have tcs: "tc + step = (fc + step) + 2 * step" "fc + step + step = tc" using tc by simp_all
  have c1: "0 \<le> fc + step" "fc + step \<le> 7"
    using assms tc by (auto simp: onBoard_def step_def split: if_splits)
  have between: "(if ks then fc + step \<le> c \<and> c < 7 else 0 < c \<and> c \<le> fc + step) \<longleftrightarrow>
      (if ks then fc < c \<and> c < 7 else 0 < c \<and> c < fc)" for c
    by (auto simp: step_def)
  have path: "castlePathLoop board fr ks (fc + step) =
      Some (\<forall>c. (if ks then fc < c \<and> c < 7 else 0 < c \<and> c < fc) \<longrightarrow> board fr c = None)"
    unfolding castlePathLoop_eq [OF row c1] between ..
  have rook: "rd board fr corner = Some (case board fr corner of None \<Rightarrow> Null | Some q \<Rightarrow> Val q)"
    using row by (intro rd_onBoard) (simp add: onBoard_def corner_def)
  obtain ic where ic: "isKingInCheck board (color p) = Some ic"
    using isKingInCheck_returns by blast
  obtain a1 where a1: "isSquareAttacked board fr (fc + step) (opponent (color p)) = Some a1"
    using isSquareAttacked_returns by blast
  obtain a2 where a2: "isSquareAttacked board fr tc (opponent (color p)) = Some a2"
    using isSquareAttacked_returns by blast
  have transit: "transitLoop board fr (opponent (color p)) step (tc + step) (fc + step) =
      Some (\<not> a1 \<and> \<not> a2)"
    unfolding tcs(1) transitLoop_two [OF step]
    by (simp add: a1 a2 tcs(2))
  have sim: "\<exists>nb ic2. castleBoard board p q fr fc tc = Some nb \<and>
      isKingInCheck nb (color p) = Some ic2" for q
    using castleBoard_returns [OF row, of board p q fc tc] isKingInCheck_returns
    by (fastforce simp: returns_def)
  show ?thesis
  proof (cases "board fr corner")
    case None
    then show ?thesis
      unfolding castlingMove_def Let_def ks_def [symmetric] corner_def [symmetric]
      by (simp add: rook)
  next
    case (Some q)
    obtain nb ic2 where nb: "castleBoard board p q fr fc tc = Some nb"
      "isKingInCheck nb (color p) = Some ic2"
      using sim by blast
    have s: "(if ks then fc + 1 else fc - 1) = fc + step" by (simp add: step_def)
    show ?thesis
      unfolding castlingMove_def Let_def ks_def [symmetric] corner_def [symmetric]
        step_def [symmetric] s
      by (simp add: rook Some ic path transit a1 a2 nb) blast
  qed
qed

section \<open>The applied move is the simulated move\<close>

lemma applyMove_castle:
  assumes "onBoard fr fc" "onBoard fr tc" "\<bar>tc - fc\<bar> = 2"
    and "board fr fc = Some p" "type p = King"
    and "board fr (if tc > fc then 7 else 0) = Some rook" "type rook = Rook"
  shows "applyMove board fr fc fr tc ep = castleBoard board p rook fr fc tc"
proof -
  define corner :: int where "corner = (if tc > fc then 7 else 0)"
  define dest :: int where "dest = (if tc > fc then tc - 1 else tc + 1)"
  have on: "onBoard fr corner" "onBoard fr dest"
    using assms(1-3) by (auto simp: onBoard_def corner_def dest_def)
  have ne: "corner \<noteq> fc" "dest \<noteq> tc"
    using assms(4-7) by (auto simp: corner_def dest_def)
  have ep: "isEnPassantMove board p fc fr tc ep = Some False"
    using assms(5) by (cases ep) (simp_all add: isEnPassantMove_def)
  have b2: "(case ep of None \<Rightarrow> Some b | Some ept \<Rightarrow> if False then f ept else Some b) = Some b"
    for b :: board and f
    by (cases ep) simp_all
  have rook: "(board (fr := (board fr)(fc := None))) fr corner = Some rook"
    using ne(1) assms(6) by (simp add: corner_def)
  show ?thesis
    unfolding applyMove_def castleBoard_eq [OF assms(1-3)] Let_def
      corner_def [symmetric] dest_def [symmetric]
    using ne(2)
    by (simp add: rd_onBoard wr_onBoard assms(1,2,3,4,5,7) on ep b2 rook
        del: fun_upd_apply) (auto simp: fun_eq_iff)
qed

lemma isEnPassantMove_of_case:
  assumes "enPassantCase board p fr fc tr tc ep = Some e" "e \<noteq> Rejected"
  shows "isEnPassantMove board p fc tr tc ep = Some (e = IsEnPassant)"
proof (cases ep)
  case None
  then show ?thesis using assms by (auto simp: enPassantCase_def isEnPassantMove_def)
next
  case (Some t)
  show ?thesis
  proof (cases "type p = Pawn \<and> tr = row t \<and> tc = col t")
    case False
    then show ?thesis
      using assms Some by (auto simp: enPassantCase_def isEnPassantMove_def)
  next
    case True
    obtain target where target: "rd board tr tc = Some target"
      using assms(1) Some True
      by (cases "rd board tr tc") (auto simp: enPassantCase_def)
    show ?thesis
    proof (cases "target = Null")
      case False
      then show ?thesis
        using assms Some True target
        by (auto simp: enPassantCase_def isEnPassantMove_def)
    next
      case null: True
      have "e = IsEnPassant"
        using assms Some True target null
        by (auto simp: enPassantCase_def Let_def split: if_splits js.splits
            simp: bind_eq_Some_conv)
      moreover have "\<bar>fc - tc\<bar> = 1"
        using assms(1) calculation by (auto simp: enPassantCase_IsEnPassant)
      ultimately show ?thesis
        using Some True target null by (simp add: isEnPassantMove_def)
    qed
  qed
qed

lemma applyMove_simulate:
  assumes "rd board fr fc = Some (Val p)"
    and "\<not> (type p = King \<and> fr = tr \<and> \<bar>tc - fc\<bar> = 2)"
    and "isEnPassantMove board p fc tr tc ep = Some e"
  shows "applyMove board fr fc tr tc ep = simulateMove board p fr fc tr tc e ep"
proof -
  have nc: "(type p = King \<and> fr = tr \<and> \<bar>tc - fc\<bar> = 2) = False"
    using assms(2) by simp
  show ?thesis
    unfolding applyMove_def simulateMove_def
    by (simp add: assms(1,3) nc)
qed

lemma isValidMove_True_cases:
  assumes "isValidMove board fr fc tr tc ep = Some True"
  obtains p where "rd board fr fc = Some (Val p)"
      "type p = King \<and> fr = tr \<and> \<bar>tc - fc\<bar> = 2"
      "castlingMove board p fr fc tc = Some True"
  | p e nb where "rd board fr fc = Some (Val p)"
      "\<not> (type p = King \<and> fr = tr \<and> \<bar>tc - fc\<bar> = 2)"
      "enPassantCase board p fr fc tr tc ep = Some e" "e \<noteq> Rejected"
      "e = IsEnPassant \<or> isValidPieceMove board fr fc tr tc = Some True"
      "simulateMove board p fr fc tr tc (e = IsEnPassant) ep = Some nb"
      "isKingInCheck nb (color p) = Some False"
proof -
  obtain cell where cell: "rd board fr fc = Some cell"
    using assms by (cases "rd board fr fc") (auto simp: isValidMove_def)
  obtain p where p: "cell = Val p"
    using assms cell by (cases cell) (auto simp: isValidMove_def)
  show ?thesis
  proof (cases "type p = King \<and> fr = tr \<and> \<bar>tc - fc\<bar> = 2")
    case True
    then have "castlingMove board p fr fc tc = Some True"
      using assms cell p by (simp add: isValidMove_def)
    then show ?thesis using that(1) cell p True by blast
  next
    case False
    then have nc: "(type p = King \<and> fr = tr \<and> \<bar>tc - fc\<bar> = 2) = False" by simp
    have a: "enPassantCase board p fr fc tr tc ep \<bind>
        (\<lambda>epa. if epa = Rejected then Some False
           else (if epa = IsEnPassant then Some True
                 else isValidPieceMove board fr fc tr tc) \<bind>
             (\<lambda>pieceMove. if \<not> pieceMove then Some False
                else simulateMove board p fr fc tr tc (epa = IsEnPassant) ep \<bind>
                  (\<lambda>newBoard. isKingInCheck newBoard (color p) \<bind>
                     (\<lambda>inCheck. Some (\<not> inCheck))))) = Some True"
      using assms unfolding isValidMove_def Let_def by (simp add: cell p nc)
    then obtain e where e: "enPassantCase board p fr fc tr tc ep = Some e"
      and a1: "(if e = Rejected then Some False
           else (if e = IsEnPassant then Some True
                 else isValidPieceMove board fr fc tr tc) \<bind>
             (\<lambda>pieceMove. if \<not> pieceMove then Some False
                else simulateMove board p fr fc tr tc (e = IsEnPassant) ep \<bind>
                  (\<lambda>newBoard. isKingInCheck newBoard (color p) \<bind>
                     (\<lambda>inCheck. Some (\<not> inCheck))))) = Some True"
      by (auto simp: bind_eq_Some_conv)
    have ne: "e \<noteq> Rejected" using a1 by auto
    obtain pm where pm0: "(if e = IsEnPassant then Some True
                 else isValidPieceMove board fr fc tr tc) = Some pm"
      and a2: "(if \<not> pm then Some False
                else simulateMove board p fr fc tr tc (e = IsEnPassant) ep \<bind>
                  (\<lambda>newBoard. isKingInCheck newBoard (color p) \<bind>
                     (\<lambda>inCheck. Some (\<not> inCheck)))) = Some True"
      using a1 ne by (auto simp: bind_eq_Some_conv)
    have pmT: pm using a2 by (cases pm) auto
    have pm: "e = IsEnPassant \<or> isValidPieceMove board fr fc tr tc = Some True"
      using pm0 pmT by (auto split: if_splits)
    obtain nb where nb: "simulateMove board p fr fc tr tc (e = IsEnPassant) ep = Some nb"
      "isKingInCheck nb (color p) = Some False"
      using a2 pmT by (auto simp: bind_eq_Some_conv)
    show ?thesis using that(2) [OF _ False e ne pm nb] cell p by blast
  qed
qed

lemma bind_Some_Not: "m \<bind> (\<lambda>x. Some (\<not> x)) = map_option Not m"
  by (cases m) simp_all

lemma map_option_Not_True:
  "map_option Not m = Some True \<longleftrightarrow> m = Some False"
  "Some True = map_option Not m \<longleftrightarrow> m = Some False"
  by (cases m; auto)+

lemma simulateMove_enPassant:
  assumes "onBoard fr fc" "onBoard (row t) (col t)" "onBoard fr (col t)"
    and "fr = row t + (if color p = White then 1 else - 1)"
  shows "simulateMove board p fr fc (row t) (col t) True (Some t) =
     Some (board (fr := (board fr) (fc := None, col t := None),
                  row t := (board (row t)) (col t := Some p)))"
proof -
  define b1 where "b1 = board (fr := (board fr) (fc := None))"
  define b2 where "b2 = b1 (fr := (b1 fr) (col t := None))"
  define b3 where "b3 = b2 (row t := (b2 (row t)) (col t := Some p))"
  have ne: "fr \<noteq> row t" using assms(4) by auto
  have cr: "row t + (if color p = White then 1 else - 1) = fr" using assms(4) by simp
  have w: "wr board fr fc None = Some b1" "wr b1 fr (col t) None = Some b2"
    "wr b2 (row t) (col t) (Some p) = Some b3"
    by (simp_all add: wr_onBoard assms(1-3) b1_def b2_def b3_def del: fun_upd_apply)
  have "simulateMove board p fr fc (row t) (col t) True (Some t) = Some b3"
    unfolding simulateMove_def by (simp add: cr w)
  moreover have "b3 = board (fr := (board fr) (fc := None, col t := None),
                  row t := (board (row t)) (col t := Some p))"
    using ne by (auto simp: b1_def b2_def b3_def fun_eq_iff)
  ultimately show ?thesis by simp
qed

section \<open>The enumeration loops\<close>

lemma destinationLoop_eq:
  assumes "0 \<le> fr" "fr \<le> 7"
  shows "\<forall>(tr, tc) \<in> set sqs. onBoard tr tc \<Longrightarrow>
    destinationLoop board fr fc ep sqs =
      Some (\<exists>(tr, tc) \<in> set sqs. isValidMove board fr fc tr tc ep = Some True)"
proof (induction sqs)
  case Nil
  show ?case by simp
next
  case (Cons sq sqs)
  obtain tr tc where sq: "sq = (tr, tc)" by (cases sq)
  have "0 \<le> tr \<and> tr \<le> 7" using Cons.prems sq by (simp add: onBoard_def)
  then obtain v where v: "isValidMove board fr fc tr tc ep = Some v"
    using isValidMove_returns [OF assms, of ep tr board fc tc] by (auto simp: returns_def)
  show ?case
    using Cons v by (cases v) (simp_all add: sq)
qed

lemma sourceLoop_eq:
  "\<forall>(fr, fc) \<in> set sqs. onBoard fr fc \<Longrightarrow>
    sourceLoop board clr ep sqs =
      Some (\<exists>(fr, fc) \<in> set sqs.
        (case board fr fc of Some piece \<Rightarrow> color piece = clr | None \<Rightarrow> False) \<and>
        (\<exists>(tr, tc) \<in> set squares. isValidMove board fr fc tr tc ep = Some True))"
proof (induction sqs)
  case Nil
  show ?case by simp
next
  case (Cons sq sqs)
  obtain fr fc where sq: "sq = (fr, fc)" by (cases sq)
  have on: "onBoard fr fc" using Cons.prems sq by simp
  have dest: "destinationLoop board fr fc ep squares =
      Some (\<exists>(tr, tc) \<in> set squares. isValidMove board fr fc tr tc ep = Some True)"
    using on by (intro destinationLoop_eq) (auto simp: onBoard_def set_squares)
  have ih: "sourceLoop board clr ep sqs =
      Some (\<exists>(fr, fc) \<in> set sqs.
        (case board fr fc of Some piece \<Rightarrow> color piece = clr | None \<Rightarrow> False) \<and>
        (\<exists>(tr, tc) \<in> set squares. isValidMove board fr fc tr tc ep = Some True))"
    using Cons by simp
  show ?case
    by (cases "board fr fc") (auto simp: sq rd_onBoard on dest ih)
qed

lemma hasAnyLegalMove_eq:
  "hasAnyLegalMove board clr ep = Some (legalMoveExists board clr ep)"
  unfolding hasAnyLegalMove_def legalMoveExists_def
  by (subst sourceLoop_eq) (auto simp: set_squares)

lemma movesDestinationLoop_eq:
  assumes "0 \<le> fr" "fr \<le> 7"
  shows "\<forall>(tr, tc) \<in> set sqs. onBoard tr tc \<Longrightarrow>
    movesDestinationLoop board fr fc moves sqs =
      Some (moves @ map (encodeMove fr fc)
        (filter (\<lambda>(tr, tc). isValidMove board fr fc tr tc None = Some True) sqs))"
proof (induction sqs arbitrary: moves)
  case Nil
  show ?case by simp
next
  case (Cons sq sqs)
  obtain tr tc where sq: "sq = (tr, tc)" by (cases sq)
  have "0 \<le> tr \<and> tr \<le> 7" using Cons.prems sq by (simp add: onBoard_def)
  then obtain v where v: "isValidMove board fr fc tr tc None = Some v"
    using isValidMove_returns [OF assms, of None tr board fc tc] by (auto simp: returns_def)
  have ih: "movesDestinationLoop board fr fc ms sqs =
      Some (ms @ map (encodeMove fr fc)
        (filter (\<lambda>(tr, tc). isValidMove board fr fc tr tc None = Some True) sqs))" for ms
    using Cons by simp
  show ?case
    by (cases v) (simp_all add: sq v ih encodeMove_def)
qed

lemma movesSourceLoop_eq:
  "\<forall>(fr, fc) \<in> set sqs. onBoard fr fc \<Longrightarrow>
    movesSourceLoop board clr moves sqs =
      Some (moves @ concat (map (\<lambda>(fr, fc).
        if hasColor board clr fr fc then
          map (encodeMove fr fc)
            (filter (\<lambda>(tr, tc). isValidMove board fr fc tr tc None = Some True) squares)
        else []) sqs))"
proof (induction sqs arbitrary: moves)
  case Nil
  show ?case by simp
next
  case (Cons sq sqs)
  obtain fr fc where sq: "sq = (fr, fc)" by (cases sq)
  have on: "onBoard fr fc" using Cons.prems sq by simp
  have dest: "movesDestinationLoop board fr fc ms squares =
      Some (ms @ map (encodeMove fr fc)
        (filter (\<lambda>(tr, tc). isValidMove board fr fc tr tc None = Some True) squares))" for ms
    using on by (intro movesDestinationLoop_eq) (auto simp: onBoard_def set_squares)
  have ih: "movesSourceLoop board clr ms sqs =
      Some (ms @ concat (map (\<lambda>(fr, fc).
        if hasColor board clr fr fc then
          map (encodeMove fr fc)
            (filter (\<lambda>(tr, tc). isValidMove board fr fc tr tc None = Some True) squares)
        else []) sqs))" for ms
    using Cons by simp
  show ?case
    by (cases "board fr fc") (auto simp: sq rd_onBoard on dest ih hasColor_def)
qed

lemma getAllValidMoves_eq: "getAllValidMoves board clr = Some (legalMoves board clr)"
  unfolding getAllValidMoves_def legalMoves_def
  by (subst movesSourceLoop_eq) (auto simp: set_squares)

lemma decodeIndex_encode:
  "onBoard r c \<Longrightarrow> decodeIndex (r * 8 + c) = \<lparr>row = r, col = c\<rparr>"
  by (auto simp: decodeIndex_def jsRemainder_def onBoard_def)

lemma decodeIndex_onBoard:
  "0 \<le> i \<Longrightarrow> i < 64 \<Longrightarrow> onBoard (row (decodeIndex i)) (col (decodeIndex i))"
  by (auto simp: decodeIndex_def jsRemainder_def onBoard_def)

lemma encode_decodeIndex:
  "0 \<le> i \<Longrightarrow> row (decodeIndex i) * 8 + col (decodeIndex i) = i"
  by (auto simp: decodeIndex_def jsRemainder_def)

lemma encode_range: "onBoard r c \<Longrightarrow> 0 \<le> r * 8 + c \<and> r * 8 + c < 64"
  by (auto simp: onBoard_def)

lemma legalMoves_iff: "move \<in> set (legalMoves board clr) \<longleftrightarrow> legalEncodedMove board clr move"
proof
  assume "move \<in> set (legalMoves board clr)"
  then obtain fr fc tr tc where m: "onBoard fr fc" "onBoard tr tc" "hasColor board clr fr fc"
    "isValidMove board fr fc tr tc None = Some True" "move = encodeMove fr fc (tr, tc)"
    by (auto simp: legalMoves_def set_squares split: if_splits)
  show "legalEncodedMove board clr move"
    using m encode_range [OF m(1)] encode_range [OF m(2)]
    by (simp add: legalEncodedMove_def encodeMove_def decodeIndex_encode)
next
  assume l: "legalEncodedMove board clr move"
  define src where "src = decodeIndex (row move)"
  define dst where "dst = decodeIndex (col move)"
  have r: "0 \<le> row move" "row move < 64" "0 \<le> col move" "col move < 64"
    "hasColor board clr (row src) (col src)"
    "isValidMove board (row src) (col src) (row dst) (col dst) None = Some True"
    using l by (simp_all add: legalEncodedMove_def src_def dst_def Let_def)
  have on: "onBoard (row src) (col src)" "onBoard (row dst) (col dst)"
    using r(1-4) by (simp_all add: src_def dst_def decodeIndex_onBoard)
  have "move = encodeMove (row src) (col src) (row dst, col dst)"
    using r(1,3) by (simp add: encodeMove_def src_def dst_def encode_decodeIndex)
  then show "move \<in> set (legalMoves board clr)"
    using on r(5,6)
    by (auto simp: legalMoves_def set_squares intro!: bexI [of _ "(row src, col src)"])
qed

section \<open>The computer opponent\<close>

lemma makeMove_eq:
  assumes "0 \<le> row fromPos" "row fromPos < 64" "0 \<le> col toPos" "col toPos < 64"
  shows "makeMove board fromPos toPos =
     (let src = decodeIndex (row fromPos); dst = decodeIndex (col toPos)
      in case board (row src) (col src) of
           None \<Rightarrow> Some board
         | Some movingPiece \<Rightarrow>
             Some ((board (row src := (board (row src)) (col src := None)))
                (row dst := ((board (row src := (board (row src)) (col src := None))) (row dst))
                   (col dst := Some (if type movingPiece = Pawn \<and> (row dst = 0 \<or> row dst = 7)
                                     then movingPiece \<lparr>type := Queen\<rparr> else movingPiece)))))"
proof -
  have on: "onBoard (row (decodeIndex (row fromPos))) (col (decodeIndex (row fromPos)))"
    "onBoard (row (decodeIndex (col toPos))) (col (decodeIndex (col toPos)))"
    using assms by (simp_all add: decodeIndex_onBoard)
  show ?thesis
    unfolding makeMove_def Let_def
    by (cases "board (row (decodeIndex (row fromPos))) (col (decodeIndex (row fromPos)))")
       (simp_all add: rd_onBoard wr_onBoard on del: fun_upd_apply)
qed

lemma randomIndex_range:
  assumes "0 \<le> rnd" "rnd < 1" "0 < n"
  shows "0 \<le> randomIndex rnd n \<and> randomIndex rnd n < int n"
proof -
  have "0 \<le> rnd * real n" using assms by simp
  moreover have "rnd * real n < real n" using assms by simp
  ultimately show ?thesis
    unfolding randomIndex_def by (simp add: floor_less_iff)
qed

lemma nthJs_random:
  assumes "0 \<le> rnd" "rnd < 1" "xs \<noteq> []"
  shows "\<exists>x \<in> set xs. nthJs xs (randomIndex rnd (length xs)) = Val x"
proof -
  have "0 \<le> randomIndex rnd (length xs) \<and> randomIndex rnd (length xs) < int (length xs)"
    using assms by (intro randomIndex_range) simp_all
  then show ?thesis
    by (auto simp: nthJs_def)
qed

lemma capturedPieceScore_eq:
  "0 \<le> col move \<Longrightarrow> col move < 64 \<Longrightarrow>
   capturedPieceScore board move = Some (destinationValue board move)"
  unfolding capturedPieceScore_def destinationValue_def Let_def
  by (cases "board (row (decodeIndex (col move))) (col (decodeIndex (col move)))")
     (simp_all add: rd_onBoard decodeIndex_onBoard)

lemma jsnum_le_simps [simp]:
  "Num a \<le> Num b \<longleftrightarrow> a \<le> b" "NegInfinity \<le> x" "x \<le> Infinity"
  "x \<le> NegInfinity \<longleftrightarrow> x = NegInfinity" "Infinity \<le> x \<longleftrightarrow> x = Infinity"
  by (cases x; simp add: less_eq_jsnum_def)+

lemma jsnum_less_simps [simp]:
  "Num a < Num b \<longleftrightarrow> a < b" "NegInfinity < x \<longleftrightarrow> x \<noteq> NegInfinity"
  "x < Infinity \<longleftrightarrow> x \<noteq> Infinity" "\<not> x < NegInfinity" "\<not> Infinity < x"
  by (cases x; auto simp: less_jsnum_def less_eq_jsnum_def)+

lemma fold_max_ge: "(b :: jsnum) \<le> fold max xs b"
proof (induction xs arbitrary: b)
  case Nil
  show ?case by simp
next
  case (Cons x xs)
  have "b \<le> max x b" by simp
  also have "\<dots> \<le> fold max xs (max x b)" by (rule Cons.IH)
  finally show ?case by simp
qed

lemma fold_max_upper: "x \<in> set xs \<Longrightarrow> (x :: jsnum) \<le> fold max xs b"
proof (induction xs arbitrary: b)
  case Nil
  then show ?case by simp
next
  case (Cons y ys)
  show ?case
  proof (cases "x = y")
    case True
    have "x \<le> max y b" using True by simp
    also have "\<dots> \<le> fold max ys (max y b)" by (rule fold_max_ge)
    finally show ?thesis by simp
  next
    case False
    then show ?thesis using Cons by simp
  qed
qed

lemma fold_max_attained: "fold max xs (b :: jsnum) = b \<or> fold max xs b \<in> set xs"
proof (induction xs arbitrary: b)
  case Nil
  show ?case by simp
next
  case (Cons y ys)
  show ?case
    using Cons.IH [of "max y b"] by (auto simp: max_def split: if_splits)
qed

lemma mediumLoop_eq:
  assumes "\<forall>m \<in> set ms. 0 \<le> col m \<and> col m < 64"
  shows "mediumLoop board best bs ms =
     Some ((if fold max (map (\<lambda>m. Num (destinationValue board m)) ms) bs = bs then best else []) @
           filter (\<lambda>m. Num (destinationValue board m) =
                        fold max (map (\<lambda>m. Num (destinationValue board m)) ms) bs) ms)"
  using assms
proof (induction ms arbitrary: best bs)
  case Nil
  show ?case by simp
next
  case (Cons m ms)
  define s where "s = Num (destinationValue board m)"
  define mx where "mx = fold max (map (\<lambda>m. Num (destinationValue board m)) ms)"
  have sc: "capturedPieceScore board m = Some (destinationValue board m)"
    using Cons.prems by (intro capturedPieceScore_eq) simp_all
  have ih: "mediumLoop board best' bs' ms =
     Some ((if mx bs' = bs' then best' else []) @
           filter (\<lambda>m. Num (destinationValue board m) = mx bs') ms)" for best' bs'
    unfolding mx_def using Cons by simp
  have ge: "b \<le> mx b" for b unfolding mx_def by (rule fold_max_ge)
  consider (gt) "s > bs" | (eq) "s = bs" | (lt) "s < bs" by fastforce
  then show ?case
  proof cases
    case gt
    then have m: "max s bs = s" by (intro max_absorb1) simp
    have "mx s \<noteq> bs" using ge [of s] gt by auto
    then show ?thesis
      by (simp add: sc s_def [symmetric] mx_def [symmetric] m ih gt)
  next
    case eq
    then have m: "max s bs = bs" by simp
    have c: "\<not> bs < s" using eq by simp
    show ?thesis
      by (simp add: sc s_def [symmetric] mx_def [symmetric] ih c) (simp add: eq)
  next
    case lt
    then have m: "max s bs = bs" by (intro max_absorb2) simp
    have c: "\<not> bs < s" "s \<noteq> bs" using lt by auto
    have "s \<noteq> mx bs" using ge [of bs] lt by auto
    then show ?thesis
      by (simp add: sc s_def [symmetric] mx_def [symmetric] m ih c)
  qed
qed

lemma legalEncodedMove_range:
  "legalEncodedMove board clr m \<Longrightarrow>
   0 \<le> row m \<and> row m < 64 \<and> 0 \<le> col m \<and> col m < 64"
  by (simp add: legalEncodedMove_def Let_def)

lemma mediumLoop_legalMoves:
  assumes "legalMoves board clr \<noteq> []"
  shows "\<exists>bestMoves. mediumLoop board [] NegInfinity (legalMoves board clr) = Some bestMoves \<and>
     bestMoves \<noteq> [] \<and>
     bestMoves = filter (\<lambda>m. \<forall>m' \<in> set (legalMoves board clr).
                     destinationValue board m' \<le> destinationValue board m)
                   (legalMoves board clr)"
proof -
  define ms where "ms = legalMoves board clr"
  define vs where "vs = map (\<lambda>m. Num (destinationValue board m)) ms"
  define mx where "mx = fold max vs NegInfinity"
  have rng: "\<forall>m \<in> set ms. 0 \<le> col m \<and> col m < 64"
    using legalEncodedMove_range by (auto simp: ms_def legalMoves_iff)
  have vs: "vs \<noteq> []" "NegInfinity \<notin> set vs" using assms by (auto simp: vs_def ms_def)
  have att: "mx \<in> set vs"
  proof (rule ccontr)
    assume "mx \<notin> set vs"
    then have z: "mx = NegInfinity"
      using fold_max_attained [of vs NegInfinity] by (simp add: mx_def)
    obtain v where v: "v \<in> set vs" using vs(1) by (cases vs) auto
    then have "v \<le> NegInfinity" using fold_max_upper [of v vs NegInfinity] z by (simp add: mx_def)
    then have "v = NegInfinity" by simp
    then show False using v vs(2) by simp
  qed
  then have ne: "mx \<noteq> NegInfinity" using vs(2) by auto
  have up: "v \<in> set vs \<Longrightarrow> v \<le> mx" for v
    unfolding mx_def by (rule fold_max_upper)
  have iff: "Num (destinationValue board m) = mx \<longleftrightarrow>
      (\<forall>m' \<in> set ms. destinationValue board m' \<le> destinationValue board m)"
    if "m \<in> set ms" for m
  proof
    assume e: "Num (destinationValue board m) = mx"
    show "\<forall>m' \<in> set ms. destinationValue board m' \<le> destinationValue board m"
    proof
      fix m' assume "m' \<in> set ms"
      then have "Num (destinationValue board m') \<le> mx" by (intro up) (simp add: vs_def)
      then show "destinationValue board m' \<le> destinationValue board m"
        using e [symmetric] by simp
    qed
  next
    assume a: "\<forall>m' \<in> set ms. destinationValue board m' \<le> destinationValue board m"
    obtain m0 where m0: "m0 \<in> set ms" "mx = Num (destinationValue board m0)"
      using att by (auto simp: vs_def)
    have "mx \<le> Num (destinationValue board m)"
      using a m0 by simp
    moreover have "Num (destinationValue board m) \<le> mx"
      using that by (intro up) (simp add: vs_def)
    ultimately show "Num (destinationValue board m) = mx" by simp
  qed
  have "mediumLoop board [] NegInfinity ms = Some (filter (\<lambda>m. Num (destinationValue board m) = mx) ms)"
    using mediumLoop_eq [OF rng, of board "[]" NegInfinity] ne
    by (simp add: mx_def vs_def)
  moreover have "filter (\<lambda>m. Num (destinationValue board m) = mx) ms =
      filter (\<lambda>m. \<forall>m' \<in> set ms. destinationValue board m' \<le> destinationValue board m) ms"
    using iff by (intro filter_cong) auto
  moreover have "filter (\<lambda>m. Num (destinationValue board m) = mx) ms \<noteq> []"
    using att by (auto simp: vs_def filter_empty_conv)
  ultimately show ?thesis
    unfolding ms_def by auto
qed

lemma evaluateLoop_returns:
  "\<forall>(r, c) \<in> set sqs. onBoard r c \<Longrightarrow> \<exists>e. evaluateLoop board score sqs = Some e"
proof (induction sqs arbitrary: score)
  case Nil
  show ?case by simp
next
  case (Cons sq sqs)
  obtain r c where sq: "sq = (r, c)" by (cases sq)
  have on: "onBoard r c" using Cons.prems sq by simp
  have ih: "\<exists>e. evaluateLoop board sc sqs = Some e" for sc
    using Cons by simp
  show ?case
    using ih by (cases "board r c") (simp_all add: sq rd_onBoard on Let_def)
qed

lemma minimax_0: "\<exists>e. minimax board 0 isMaximizing = Some (Num e)"
  using evaluateLoop_returns [of squares board 0]
  by (auto simp: evaluateBoard_def set_squares)

lemma aiMakeMove_returns:
  assumes "legalEncodedMove board clr m"
  shows "\<exists>newBoard. aiMakeMove board m = Some newBoard"
proof -
  have "0 \<le> row m \<and> row m < 64 \<and> 0 \<le> col m \<and> col m < 64"
    using assms by (rule legalEncodedMove_range)
  then show ?thesis
    unfolding aiMakeMove_def
    by (subst makeMove_eq) (auto simp: Let_def split: option.splits)
qed

lemma minLoop_returns:
  assumes "\<forall>m \<in> set ms. \<exists>nb v. aiMakeMove board m = Some nb \<and> child nb = Some v \<and>
             v \<noteq> NegInfinity"
    and "acc \<noteq> NegInfinity"
  shows "\<exists>r. minLoop child board acc ms = Some r \<and> r \<noteq> NegInfinity"
  using assms
proof (induction ms arbitrary: acc)
  case Nil
  then show ?case by simp
next
  case (Cons m ms)
  obtain nb v where m: "aiMakeMove board m = Some nb" "child nb = Some v" "v \<noteq> NegInfinity"
    using Cons.prems(1) by auto
  have "min acc v \<noteq> NegInfinity"
    using m(3) Cons.prems(2) by (simp add: min_def)
  then show ?case
    using Cons.IH [of "min acc v"] Cons.prems(1) by (simp add: m)
qed

lemma minimax_1_False:
  "\<exists>v. minimax board 1 False = Some v \<and> v \<noteq> NegInfinity"
proof -
  obtain ic where ic: "isKingInCheck board White = Some ic"
    using isKingInCheck_returns by blast
  have child: "\<forall>m \<in> set (legalMoves board White). \<exists>nb v.
      aiMakeMove board m = Some nb \<and> minimax nb 0 True = Some v \<and> v \<noteq> NegInfinity"
  proof
    fix m assume "m \<in> set (legalMoves board White)"
    then obtain nb where nb: "aiMakeMove board m = Some nb"
      using aiMakeMove_returns [of board White m] by (auto simp: legalMoves_iff)
    obtain e where "minimax nb 0 True = Some (Num e)" using minimax_0 by blast
    then show "\<exists>nb v. aiMakeMove board m = Some nb \<and> minimax nb 0 True = Some v \<and>
        v \<noteq> NegInfinity"
      using nb by auto
  qed
  have loop: "\<exists>r. minLoop (\<lambda>newBoard. minimax newBoard 0 True) board Infinity
      (legalMoves board White) = Some r \<and> r \<noteq> NegInfinity"
    using child by (intro minLoop_returns) simp_all
  have "minimax board (Suc 0) False =
      (if legalMoves board White = [] then (if ic then Some Infinity else Some (Num 0))
       else minLoop (\<lambda>newBoard. minimax newBoard 0 True) board Infinity
              (legalMoves board White))"
    by (simp add: getAllValidMoves_eq ic)
  then show ?thesis
    using loop by (auto simp: One_nat_def)
qed

lemma moveValue_returns:
  assumes "legalEncodedMove board clr m"
  shows "\<exists>v. moveValue board m = Some v \<and> v \<noteq> NegInfinity"
proof -
  obtain nb where "aiMakeMove board m = Some nb"
    using aiMakeMove_returns [OF assms] by blast
  then show ?thesis
    using minimax_1_False [of nb] by (simp add: moveValue_def)
qed

lemma hardLoop_eq:
  assumes "\<forall>m \<in> set ms. moveValue board m = Some (f m)"
  shows "\<exists>r. hardLoop board bm bv ms = Some r \<and>
     ((r = bm \<and> (\<forall>m \<in> set ms. f m \<le> bv)) \<or>
      (\<exists>pre m post. ms = pre @ m # post \<and> r = Val m \<and> bv < f m \<and>
         (\<forall>x \<in> set pre. f x < f m) \<and> (\<forall>x \<in> set post. f x \<le> f m)))"
  using assms
proof (induction ms arbitrary: bm bv)
  case Nil
  show ?case by simp
next
  case (Cons m ms)
  have mv: "moveValue board m = Some (f m)" using Cons.prems by simp
  then obtain nb where nb: "aiMakeMove board m = Some nb"
    "minimax nb (Suc 0) False = Some (f m)"
    by (auto simp: moveValue_def bind_eq_Some_conv simp del: minimax.simps)
  have rest: "\<forall>m \<in> set ms. moveValue board m = Some (f m)" using Cons.prems by simp
  show ?case
  proof (cases "f m > bv")
    case True
    obtain r where r: "hardLoop board (Val m) (f m) ms = Some r"
      and c: "(r = Val m \<and> (\<forall>x \<in> set ms. f x \<le> f m)) \<or>
        (\<exists>pre m' post. ms = pre @ m' # post \<and> r = Val m' \<and> f m < f m' \<and>
           (\<forall>x \<in> set pre. f x < f m') \<and> (\<forall>x \<in> set post. f x \<le> f m'))"
      using Cons.IH [OF rest, of "Val m" "f m"] by blast
    have h: "hardLoop board bm bv (m # ms) = Some r"
      using True by (simp add: nb r del: minimax.simps)
    from c show ?thesis
    proof
      assume a: "r = Val m \<and> (\<forall>x \<in> set ms. f x \<le> f m)"
      have "m # ms = [] @ m # ms \<and> r = Val m \<and> bv < f m \<and>
         (\<forall>x \<in> set []. f x < f m) \<and> (\<forall>x \<in> set ms. f x \<le> f m)"
        using a True by simp
      then show ?thesis using h by blast
    next
      assume "\<exists>pre m' post. ms = pre @ m' # post \<and> r = Val m' \<and> f m < f m' \<and>
           (\<forall>x \<in> set pre. f x < f m') \<and> (\<forall>x \<in> set post. f x \<le> f m')"
      then obtain pre m' post where s: "ms = pre @ m' # post" "r = Val m'" "f m < f m'"
        "\<forall>x \<in> set pre. f x < f m'" "\<forall>x \<in> set post. f x \<le> f m'"
        by blast
      have "m # ms = (m # pre) @ m' # post \<and> r = Val m' \<and> bv < f m' \<and>
         (\<forall>x \<in> set (m # pre). f x < f m') \<and> (\<forall>x \<in> set post. f x \<le> f m')"
        using s True by auto
      then show ?thesis using h by blast
    qed
  next
    case False
    obtain r where r: "hardLoop board bm bv ms = Some r"
      and c: "(r = bm \<and> (\<forall>x \<in> set ms. f x \<le> bv)) \<or>
        (\<exists>pre m' post. ms = pre @ m' # post \<and> r = Val m' \<and> bv < f m' \<and>
           (\<forall>x \<in> set pre. f x < f m') \<and> (\<forall>x \<in> set post. f x \<le> f m'))"
      using Cons.IH [OF rest, of bm bv] by blast
    have h: "hardLoop board bm bv (m # ms) = Some r"
      using False by (simp add: nb r del: minimax.simps)
    from c show ?thesis
    proof
      assume "r = bm \<and> (\<forall>x \<in> set ms. f x \<le> bv)"
      then show ?thesis using h False by auto
    next
      assume "\<exists>pre m' post. ms = pre @ m' # post \<and> r = Val m' \<and> bv < f m' \<and>
           (\<forall>x \<in> set pre. f x < f m') \<and> (\<forall>x \<in> set post. f x \<le> f m')"
      then obtain pre m' post where s: "ms = pre @ m' # post" "r = Val m'" "bv < f m'"
        "\<forall>x \<in> set pre. f x < f m'" "\<forall>x \<in> set post. f x \<le> f m'"
        by blast
      have "m # ms = (m # pre) @ m' # post \<and> r = Val m' \<and> bv < f m' \<and>
         (\<forall>x \<in> set (m # pre). f x < f m') \<and> (\<forall>x \<in> set post. f x \<le> f m')"
        using s False by auto
      then show ?thesis using h by blast
    qed
  qed
qed

lemma nthJs_Val: "nthJs xs i = Val x \<Longrightarrow> x \<in> set xs"
  by (auto simp: nthJs_def split: if_splits)

lemma getAIMove_no_moves:
  "legalMoves board Black = [] \<Longrightarrow> getAIMove board difficulty rnd = Some Null"
  by (simp add: getAIMove_def getAllValidMoves_eq)

lemma getAIMove_easy:
  "legalMoves board Black \<noteq> [] \<Longrightarrow>
   getAIMove board Easy rnd =
     Some (nthJs (legalMoves board Black) (randomIndex rnd (length (legalMoves board Black))))"
  by (simp add: getAIMove_def getAllValidMoves_eq)

lemma getAIMove_medium:
  assumes "legalMoves board Black \<noteq> []"
  shows "\<exists>bestMoves.
     bestMoves = filter (\<lambda>m. \<forall>m' \<in> set (legalMoves board Black).
                    destinationValue board m' \<le> destinationValue board m)
                  (legalMoves board Black) \<and>
     bestMoves \<noteq> [] \<and>
     getAIMove board Medium rnd =
       Some (nthJs bestMoves (randomIndex rnd (length bestMoves)))"
proof -
  obtain bestMoves where b: "mediumLoop board [] NegInfinity (legalMoves board Black) = Some bestMoves"
    "bestMoves \<noteq> []"
    "bestMoves = filter (\<lambda>m. \<forall>m' \<in> set (legalMoves board Black).
                     destinationValue board m' \<le> destinationValue board m)
                   (legalMoves board Black)"
    using mediumLoop_legalMoves [OF assms] by blast
  have "getAIMove board Medium rnd = Some (nthJs bestMoves (randomIndex rnd (length bestMoves)))"
    using assms by (simp add: getAIMove_def getAllValidMoves_eq b(1))
  then show ?thesis using b(2,3) by blast
qed

lemma getAIMove_hard:
  assumes "legalMoves board Black \<noteq> []"
  shows "\<exists>pre best post v.
     legalMoves board Black = pre @ best # post \<and>
     getAIMove board Hard rnd = Some (Val best) \<and>
     moveValue board best = Some v \<and>
     (\<forall>m \<in> set pre. \<exists>u. moveValue board m = Some u \<and> u < v) \<and>
     (\<forall>m \<in> set post. \<exists>u. moveValue board m = Some u \<and> u \<le> v)"
proof -
  define f where "f = (\<lambda>m. the (moveValue board m))"
  have mv: "moveValue board m = Some (f m) \<and> f m \<noteq> NegInfinity"
    if "m \<in> set (legalMoves board Black)" for m
    using moveValue_returns [of board Black m] that by (auto simp: legalMoves_iff f_def)
  then have all: "\<forall>m \<in> set (legalMoves board Black). moveValue board m = Some (f m)"
    by blast
  obtain r where r: "hardLoop board Null NegInfinity (legalMoves board Black) = Some r"
    and c: "(r = Null \<and> (\<forall>m \<in> set (legalMoves board Black). f m \<le> NegInfinity)) \<or>
      (\<exists>pre m post. legalMoves board Black = pre @ m # post \<and> r = Val m \<and> NegInfinity < f m \<and>
         (\<forall>x \<in> set pre. f x < f m) \<and> (\<forall>x \<in> set post. f x \<le> f m))"
    using hardLoop_eq [OF all, of Null NegInfinity] by blast
  have g: "getAIMove board Hard rnd = Some r"
    using assms by (simp add: getAIMove_def getAllValidMoves_eq r)
  obtain m0 where "m0 \<in> set (legalMoves board Black)" using assms by (cases "legalMoves board Black") auto
  then have "\<not> (\<forall>m \<in> set (legalMoves board Black). f m \<le> NegInfinity)"
    using mv by auto
  then obtain pre m post where s: "legalMoves board Black = pre @ m # post" "r = Val m"
    "\<forall>x \<in> set pre. f x < f m" "\<forall>x \<in> set post. f x \<le> f m"
    using c by blast
  have "legalMoves board Black = pre @ m # post \<and>
     getAIMove board Hard rnd = Some (Val m) \<and>
     moveValue board m = Some (f m) \<and>
     (\<forall>x \<in> set pre. \<exists>u. moveValue board x = Some u \<and> u < f m) \<and>
     (\<forall>x \<in> set post. \<exists>u. moveValue board x = Some u \<and> u \<le> f m)"
    using s g mv by auto
  then show ?thesis by blast
qed

lemma getAIMove_Val_legal:
  assumes "getAIMove board difficulty rnd = Some (Val move)"
  shows "legalEncodedMove board Black move"
proof -
  have ne: "legalMoves board Black \<noteq> []"
    using assms getAIMove_no_moves [of board difficulty rnd] by auto
  have "move \<in> set (legalMoves board Black)"
  proof (cases difficulty)
    case Easy
    then show ?thesis using assms getAIMove_easy [OF ne, of rnd] nthJs_Val by auto
  next
    case Medium
    obtain bestMoves where b: "bestMoves = filter (\<lambda>m. \<forall>m' \<in> set (legalMoves board Black).
                    destinationValue board m' \<le> destinationValue board m)
                  (legalMoves board Black)"
      "getAIMove board Medium rnd = Some (nthJs bestMoves (randomIndex rnd (length bestMoves)))"
      using getAIMove_medium [OF ne, of rnd] by blast
    have "move \<in> set bestMoves"
      using assms Medium b(2) by (intro nthJs_Val [of _ "randomIndex rnd (length bestMoves)"]) simp
    then show ?thesis unfolding b(1) by simp
  next
    case Hard
    then show ?thesis using assms getAIMove_hard [OF ne, of rnd] by auto
  qed
  then show ?thesis by (simp add: legalMoves_iff)
qed

lemma isValidMove_None_pieceMove:
  assumes "isValidMove board fr fc tr tc None = Some True" "board fr fc = Some p"
    and "\<not> (type p = King \<and> fr = tr \<and> \<bar>tc - fc\<bar> = 2)"
  shows "isValidPieceMove board fr fc tr tc = Some True"
  using assms(1)
proof (cases rule: isValidMove_True_cases)
  case (1 q)
  then show ?thesis using assms(2,3) by (simp add: rd_Val)
next
  case (2 q e nb)
  have "e = NotEnPassant" using 2(3) by (simp add: enPassantCase_def)
  then show ?thesis using 2(5) by simp
qed

lemma pawn_diagonal_captures:
  assumes "isValidPieceMove board fr fc tr tc = Some True" "board fr fc = Some p"
    and "type p = Pawn" "fc \<noteq> tc"
  shows "\<exists>q. board tr tc = Some q \<and> color q \<noteq> color p"
proof -
  have to: "onBoard tr tc" using assms(1) by (rule isValidPieceMove_True_onBoard)
  have src: "rd board fr fc = Some (Val p)"
    using assms(1,2) by (cases "rd board fr fc") (auto simp: isValidPieceMove_def rd_def split: if_splits)
  show ?thesis
  proof (cases "board tr tc")
    case None
    then have "isValidPieceMove board fr fc tr tc = Some False"
      using to assms(3,4) src
      by (auto simp: isValidPieceMove_def onBoard_def rd_onBoard pawnMove_def truthy_def Let_def)
    then show ?thesis using assms(1) by simp
  next
    case (Some q)
    have "color q \<noteq> color p"
    proof
      assume "color q = color p"
      then have "isValidPieceMove board fr fc tr tc = Some False"
        using to src Some
        by (auto simp: isValidPieceMove_def onBoard_def rd_onBoard)
      then show False using assms(1) by simp
    qed
    then show ?thesis using Some by simp
  qed
qed

lemma maxLoop_eq:
  assumes "\<forall>m \<in> set ms. moveValue board m = Some (f m)"
  shows "maxLoop (\<lambda>newBoard. minimax newBoard (Suc 0) False) board acc ms =
     Some (fold max (map f ms) acc)"
  using assms
proof (induction ms arbitrary: acc)
  case Nil
  show ?case by simp
next
  case (Cons m ms)
  have "moveValue board m = Some (f m)" using Cons.prems by simp
  then obtain nb where nb: "aiMakeMove board m = Some nb"
    "minimax nb (Suc 0) False = Some (f m)"
    by (auto simp: moveValue_def bind_eq_Some_conv simp del: minimax.simps)
  have "maxLoop (\<lambda>newBoard. minimax newBoard (Suc 0) False) board (max acc (f m)) ms =
     Some (fold max (map f ms) (max acc (f m)))"
    using Cons by simp
  then show ?case
    by (simp add: nb max.commute del: minimax.simps)
qed

lemma fold_max_first_best:
  assumes "\<forall>x \<in> set pre. f x < f best" "\<forall>x \<in> set post. f x \<le> f best"
  shows "fold max (map f (pre @ best # post)) NegInfinity = (f best :: jsnum)"
proof -
  define vs where "vs = map f (pre @ best # post)"
  have le: "\<forall>v \<in> set vs. v \<le> f best"
    using assms by (auto simp: vs_def intro: less_imp_le)
  have "f best \<in> set vs" by (simp add: vs_def)
  then have lower: "f best \<le> fold max vs NegInfinity" by (rule fold_max_upper)
  have "fold max vs NegInfinity = NegInfinity \<or> fold max vs NegInfinity \<in> set vs"
    by (rule fold_max_attained)
  then have "fold max vs NegInfinity \<le> f best"
    using le by auto
  then show ?thesis
    using lower unfolding vs_def by simp
qed

lemma minimax_2_True:
  assumes "legalMoves board Black = pre @ best # post"
    and "moveValue board best = Some v"
    and "\<forall>m \<in> set pre. \<exists>u. moveValue board m = Some u \<and> u < v"
    and "\<forall>m \<in> set post. \<exists>u. moveValue board m = Some u \<and> u \<le> v"
  shows "minimax board 2 True = Some v"
proof -
  define f where "f = (\<lambda>m. the (moveValue board m))"
  have fb: "f best = v" using assms(2) by (simp add: f_def)
  have all: "\<forall>m \<in> set (legalMoves board Black). moveValue board m = Some (f m)"
    using assms by (auto simp: f_def)
  have pre: "\<forall>x \<in> set pre. f x < f best" using assms(3) fb by (auto simp: f_def)
  have post: "\<forall>x \<in> set post. f x \<le> f best" using assms(4) fb by (auto simp: f_def)
  have "minimax board (Suc (Suc 0)) True =
      maxLoop (\<lambda>newBoard. minimax newBoard (Suc 0) False) board NegInfinity
        (legalMoves board Black)"
    using assms(1)
    by (subst minimax.simps(2)) (simp add: getAllValidMoves_eq del: minimax.simps)
  also have "\<dots> = Some (fold max (map f (legalMoves board Black)) NegInfinity)"
    by (rule maxLoop_eq [OF all])
  also have "\<dots> = Some (f best)"
    unfolding assms(1) fold_max_first_best [OF pre post] ..
  finally show ?thesis by (simp add: fb numeral_2_eq_2)
qed

subsection \<open>The move as the search makes it and as the game plays it\<close>

lemma isEnPassantMove_legal:
  assumes "isValidMove board fr fc tr tc None = Some True" "board fr fc = Some p"
    and "onBoard tr tc"
  shows "isEnPassantMove board p fc tr tc ept = Some False"
proof (cases "type p = Pawn \<and> \<bar>fc - tc\<bar> = 1")
  case True
  then have nc: "\<not> (type p = King \<and> fr = tr \<and> \<bar>tc - fc\<bar> = 2)" by auto
  have "isValidPieceMove board fr fc tr tc = Some True"
    by (rule isValidMove_None_pieceMove [OF assms(1,2) nc])
  moreover have "fc \<noteq> tc" using True by auto
  ultimately obtain q where "board tr tc = Some q"
    using pawn_diagonal_captures [of board fr fc tr tc p] assms(2) True by blast
  then have "rd board tr tc = Some (Val q)" using assms(3) by (simp add: rd_Val)
  then show ?thesis by (cases ept) (auto simp: isEnPassantMove_def)
next
  case False
  obtain cell where "rd board tr tc = Some cell"
    using assms(3) by (simp add: rd_onBoard)
  then show ?thesis using False by (cases ept) (auto simp: isEnPassantMove_def)
qed

lemma aiApplyMove_legal:
  assumes "legalEncodedMove board clr move" "\<not> castlingEncodedMove board move"
  shows "\<exists>nextTarget. aiApplyMove board enPassantTarget move =
     map_option (\<lambda>newBoard. (newBoard, nextTarget)) (aiMakeMove board move)"
proof -
  define fr where "fr = row move div 8"
  define fc where "fc = jsRemainder (row move) 8"
  define tr where "tr = col move div 8"
  define tc where "tc = jsRemainder (col move) 8"
  have d: "decodeIndex (row move) = \<lparr>row = fr, col = fc\<rparr>"
    "decodeIndex (col move) = \<lparr>row = tr, col = tc\<rparr>"
    by (simp_all add: decodeIndex_def fr_def fc_def tr_def tc_def)
  have r: "0 \<le> row move" "row move < 64" "0 \<le> col move" "col move < 64"
    "hasColor board clr fr fc" "isValidMove board fr fc tr tc None = Some True"
    using assms(1) by (simp_all add: legalEncodedMove_def d Let_def)
  have on: "onBoard fr fc" "onBoard tr tc"
    using decodeIndex_onBoard [OF r(1,2)] decodeIndex_onBoard [OF r(3,4)] by (simp_all add: d)
  obtain p where p: "board fr fc = Some p"
    using r(5) by (cases "board fr fc") (simp_all add: hasColor_def)
  have nc: "(type p = King \<and> fr = tr \<and> \<bar>tc - fc\<bar> = 2) = False"
    using assms(2) p by (simp add: castlingEncodedMove_def d)
  have ep: "isEnPassantMove board p fc tr tc enPassantTarget = Some False"
    by (rule isEnPassantMove_legal [OF r(6) p on(2)])
  have src: "rd board fr fc = Some (Val p)" using on(1) p by (simp add: rd_Val)
  have b2: "(case enPassantTarget of None \<Rightarrow> Some b | Some ept \<Rightarrow> if False then f ept else Some b)
      = Some b" for b :: board and f
    by (cases enPassantTarget) simp_all
  have "aiApplyMove board enPassantTarget move =
     map_option (\<lambda>newBoard. (newBoard, nextEnPassant p fr tr tc)) (aiMakeMove board move)"
    unfolding aiApplyMove_def aiMakeMove_def makeMove_def Let_def
    by (simp add: d fr_def [symmetric] fc_def [symmetric] tr_def [symmetric] tc_def [symmetric]
        src ep b2 nc wr_onBoard on map_option_case del: fun_upd_apply)
  then show ?thesis by blast
qed

lemma appliedValue_legal:
  assumes "legalEncodedMove board clr move" "\<not> castlingEncodedMove board move"
  shows "appliedValue board enPassantTarget move = moveValue board move"
proof -
  obtain nextTarget where "aiApplyMove board enPassantTarget move =
     map_option (\<lambda>newBoard. (newBoard, nextTarget)) (aiMakeMove board move)"
    using aiApplyMove_legal [OF assms] by blast
  then show ?thesis
    unfolding appliedValue_def moveValue_def by (cases "aiMakeMove board move") simp_all
qed

section \<open>The claims\<close>

subsection \<open>C1: a legal move leaves the mover's king out of check\<close>

text \<open>
  C1: for every board, every pair of squares of the grid and every en passant target,
  if \<open>isValidMove\<close> returns \<open>true\<close> then the source square holds a piece, and the board
  obtained by applying the move as \<open>handleSquareClick\<close> does (source cleared, the pawn
  taken en passant removed, the rook relocated in a castle, the moved piece placed on
  the destination) has \<open>isKingInCheck = false\<close> for the color of that piece.
\<close>

theorem legal_move_leaves_own_king_safe:
  assumes "onBoard fromRow fromCol" "onBoard toRow toCol"
    and "isValidMove board fromRow fromCol toRow toCol enPassantTarget = Some True"
  shows "\<exists>piece newBoard.
     board fromRow fromCol = Some piece \<and>
     applyMove board fromRow fromCol toRow toCol enPassantTarget = Some newBoard \<and>
     isKingInCheck newBoard (color piece) = Some False"
  using assms(3)
proof (cases rule: isValidMove_True_cases)
  case (1 p)
  have p: "board fromRow fromCol = Some p" using 1(1) by (simp add: rd_Val)
  have to: "onBoard fromRow toCol" using assms(2) 1(2) by simp
  have two: "\<bar>toCol - fromCol\<bar> = 2" using 1(2) by simp
  obtain rook newBoard where r:
    "board fromRow (if toCol > fromCol then 7 else 0) = Some rook" "type rook = Rook"
    "castleBoard board p rook fromRow fromCol toCol = Some newBoard"
    "isKingInCheck newBoard (color p) = Some False"
    using 1(3) unfolding castlingMove_eq [OF assms(1) to two] by auto
  have king: "type p = King" using 1(2) by simp
  have "applyMove board fromRow fromCol fromRow toCol enPassantTarget = Some newBoard"
    using applyMove_castle [where board = board and ep = enPassantTarget,
        OF assms(1) to two p king r(1,2)] r(3) by simp
  then show ?thesis using p r(4) 1(2) by auto
next
  case (2 p e nb)
  have p: "board fromRow fromCol = Some p" using 2(1) by (simp add: rd_Val)
  have "applyMove board fromRow fromCol toRow toCol enPassantTarget = Some nb"
    using applyMove_simulate [OF 2(1,2) isEnPassantMove_of_case [OF 2(3,4)]] 2(6) by simp
  then show ?thesis using p 2(7) by auto
qed

lemma createInitialBoard_pawn_move: "isValidMove createInitialBoard 6 4 4 4 None = Some True"
  unfolding createInitialBoard_def pieceOrder_def by code_simp

theorem legal_move_leaves_own_king_safe_witness:
  "onBoard 6 4 \<and> onBoard 4 4 \<and> isValidMove createInitialBoard 6 4 4 4 None = Some True \<and>
   (\<exists>piece newBoard.
      createInitialBoard 6 4 = Some piece \<and>
      applyMove createInitialBoard 6 4 4 4 None = Some newBoard \<and>
      isKingInCheck newBoard (color piece) = Some False)"
proof -
  have h: "onBoard 6 4" "onBoard 4 4" by (simp_all add: onBoard_def)
  show ?thesis
    using legal_move_leaves_own_king_safe [OF h createInitialBoard_pawn_move] h
      createInitialBoard_pawn_move
    by simp
qed

subsection \<open>C2: checkmate and stalemate\<close>

text \<open>
  C2: for every board, color and en passant target, \<open>isCheckmate\<close> returns \<open>true\<close> if and
  only if \<open>isKingInCheck\<close> is \<open>true\<close> and no legal move exists for the color, and
  \<open>isStalemate\<close> returns \<open>true\<close> if and only if \<open>isKingInCheck\<close> is \<open>false\<close> and no legal
  move exists for the color; a legal move exists when some square holds a piece of the
  color from which \<open>isValidMove\<close> accepts some destination (\<open>legalMoveExists\<close>). Both calls
  always return.
\<close>

theorem checkmate_stalemate_iff:
  "isCheckmate board clr enPassantTarget =
     Some (isKingInCheck board clr = Some True \<and> \<not> legalMoveExists board clr enPassantTarget) \<and>
   isStalemate board clr enPassantTarget =
     Some (isKingInCheck board clr = Some False \<and> \<not> legalMoveExists board clr enPassantTarget)"
proof -
  obtain ic where ic: "isKingInCheck board clr = Some ic"
    using isKingInCheck_returns by blast
  show ?thesis
    by (cases ic) (simp_all add: isCheckmate_def isStalemate_def ic hasAnyLegalMove_eq)
qed

lemma matePosition_checkmate: "isCheckmate matePosition Black None = Some True"
  unfolding matePosition_def boardOf_def pc_def by code_simp

theorem checkmate_stalemate_iff_witness:
  "isCheckmate matePosition Black None = Some True \<and>
   isKingInCheck matePosition Black = Some True \<and>
   \<not> legalMoveExists matePosition Black None \<and>
   isStalemate matePosition Black None = Some False"
  using checkmate_stalemate_iff [of matePosition Black None] matePosition_checkmate
  by auto

subsection \<open>C3: castling\<close>

text \<open>
  C3: for every board and every candidate move in which a king moves exactly two files
  along its own row, \<open>isValidMove\<close> returns \<open>true\<close> if and only if a rook of the king's
  color stands on the corner column of that side on the same row, the king is not
  currently in check, every square strictly between the king and that rook is empty,
  neither the square the king passes nor its destination is attacked by the opponent,
  and the position after the castle (king and rook both relocated) does not have the
  king in check. The call always returns, with exactly this truth value.
\<close>

theorem castling_accepted_iff:
  assumes "onBoard fromRow fromCol" "onBoard fromRow toCol"
    and "board fromRow fromCol = Some king" "type king = King"
    and "\<bar>toCol - fromCol\<bar> = 2"
  shows "isValidMove board fromRow fromCol fromRow toCol enPassantTarget =
     Some (\<exists>rook.
        board fromRow (if toCol > fromCol then 7 else 0) = Some rook \<and>
        type rook = Rook \<and> color rook = color king \<and>
        isKingInCheck board (color king) = Some False \<and>
        (\<forall>c. (if toCol > fromCol then fromCol < c \<and> c < 7 else 0 < c \<and> c < fromCol)
             \<longrightarrow> board fromRow c = None) \<and>
        isSquareAttacked board fromRow (if toCol > fromCol then fromCol + 1 else fromCol - 1)
          (opponent (color king)) = Some False \<and>
        isSquareAttacked board fromRow toCol (opponent (color king)) = Some False \<and>
        isKingInCheck
          (board (fromRow := (board fromRow)
             (fromCol := None, (if toCol > fromCol then 7 else 0) := None,
              toCol := Some king,
              (if toCol > fromCol then toCol - 1 else toCol + 1) := Some rook)))
          (color king) = Some False)"
proof -
  have "isValidMove board fromRow fromCol fromRow toCol enPassantTarget =
      castlingMove board king fromRow fromCol toCol"
    using assms by (simp add: isValidMove_def rd_onBoard)
  then show ?thesis
    unfolding castlingMove_eq [OF assms(1,2,5)] castleBoard_eq [OF assms(1,2,5)]
    by simp
qed

lemma castlingPosition_castle: "isValidMove castlingPosition 0 4 0 6 None = Some True"
  unfolding castlingPosition_def boardOf_def pc_def by code_simp

theorem castling_accepted_iff_witness:
  "onBoard 0 4 \<and> onBoard 0 6 \<and> castlingPosition 0 4 = Some (pc King Black) \<and>
   type (pc King Black) = King \<and> \<bar>6 - 4\<bar> = (2 :: int) \<and>
   castlingPosition 0 7 = Some (pc Rook Black) \<and>
   isKingInCheck castlingPosition Black = Some False \<and>
   castlingPosition 0 5 = None \<and> castlingPosition 0 6 = None \<and>
   isSquareAttacked castlingPosition 0 5 White = Some False \<and>
   isSquareAttacked castlingPosition 0 6 White = Some False \<and>
   isKingInCheck
     (castlingPosition (0 := (castlingPosition 0)
        (4 := None, 7 := None, 6 := Some (pc King Black), 5 := Some (pc Rook Black))))
     Black = Some False"
proof -
  have h: "onBoard 0 4" "onBoard 0 6" "castlingPosition 0 4 = Some (pc King Black)"
    "type (pc King Black) = King" "\<bar>6 - 4\<bar> = (2 :: int)"
    "castlingPosition 0 7 = Some (pc Rook Black)"
    "castlingPosition 0 5 = None" "castlingPosition 0 6 = None"
    by (simp_all add: onBoard_def castlingPosition_def boardOf_def pc_def)
  show ?thesis
    using castling_accepted_iff [where fromRow = 0 and fromCol = 4 and toCol = 6
        and board = castlingPosition and king = "pc King Black" and enPassantTarget = None] h
    by (simp add: castlingPosition_castle opponent_def pc_def)
qed

subsection \<open>C4: en passant\<close>

text \<open>
  C4: for every board, every pawn on it and every supplied en passant target, the move
  of that pawn onto the target square is treated as an en passant capture (the flag
  \<open>isEnPassant\<close> is set) only when, and in fact exactly when, the target square is
  empty, the pawn stands on the capture row one column away from the target, and the
  square behind the target, towards the mover's side, holds an enemy pawn. For such a
  move the simulated board has that enemy pawn's square emptied and the moving pawn on
  the target square, every other square but the source being unchanged, and
  \<open>isValidMove\<close> returns whether the mover's king is out of check on that board.
\<close>

theorem enPassant_capture:
  assumes "onBoard fromRow fromCol" "board fromRow fromCol = Some pawn" "type pawn = Pawn"
  shows
    "(enPassantCase board pawn fromRow fromCol (row t) (col t) (Some t) = Some IsEnPassant \<longleftrightarrow>
        onBoard (row t) (col t) \<and> board (row t) (col t) = None \<and>
        fromRow = row t + (if color pawn = White then 1 else - 1) \<and>
        \<bar>fromCol - col t\<bar> = 1 \<and>
        (\<exists>cp. board (row t + (if color pawn = White then 1 else - 1)) (col t) = Some cp \<and>
              type cp = Pawn \<and> color cp \<noteq> color pawn)) \<and>
     (enPassantCase board pawn fromRow fromCol (row t) (col t) (Some t) = Some IsEnPassant \<longrightarrow>
        (\<exists>newBoard.
           simulateMove board pawn fromRow fromCol (row t) (col t) True (Some t) = Some newBoard \<and>
           newBoard (row t + (if color pawn = White then 1 else - 1)) (col t) = None \<and>
           newBoard (row t) (col t) = Some pawn \<and>
           newBoard fromRow fromCol = None \<and>
           (\<forall>r c. (r, c) \<noteq> (fromRow, fromCol) \<and> (r, c) \<noteq> (fromRow, col t) \<and>
                  (r, c) \<noteq> (row t, col t) \<longrightarrow> newBoard r c = board r c) \<and>
           isValidMove board fromRow fromCol (row t) (col t) (Some t) =
             map_option Not (isKingInCheck newBoard (color pawn))))"
proof (intro conjI impI)
  show "enPassantCase board pawn fromRow fromCol (row t) (col t) (Some t) = Some IsEnPassant \<longleftrightarrow>
        onBoard (row t) (col t) \<and> board (row t) (col t) = None \<and>
        fromRow = row t + (if color pawn = White then 1 else - 1) \<and>
        \<bar>fromCol - col t\<bar> = 1 \<and>
        (\<exists>cp. board (row t + (if color pawn = White then 1 else - 1)) (col t) = Some cp \<and>
              type cp = Pawn \<and> color cp \<noteq> color pawn)"
    unfolding enPassantCase_IsEnPassant
    using assms by (auto simp: onBoard_def)
next
  assume ep: "enPassantCase board pawn fromRow fromCol (row t) (col t) (Some t) = Some IsEnPassant"
  then have c: "onBoard (row t) (col t)" "board (row t) (col t) = None"
    "fromRow = row t + (if color pawn = White then 1 else - 1)" "\<bar>fromCol - col t\<bar> = 1"
    "onBoard fromRow (col t)"
    unfolding enPassantCase_IsEnPassant by auto
  define newBoard where "newBoard =
    board (fromRow := (board fromRow) (fromCol := None, col t := None),
           row t := (board (row t)) (col t := Some pawn))"
  have sim: "simulateMove board pawn fromRow fromCol (row t) (col t) True (Some t) = Some newBoard"
    using simulateMove_enPassant [OF assms(1) c(1,5,3), of board]
    by (simp add: newBoard_def)
  have ne: "fromRow \<noteq> row t" using c(3) by auto
  have nk: "(type pawn = King \<and> fromRow = row t \<and> \<bar>col t - fromCol\<bar> = 2) = False"
    using assms(3) by simp
  have valid: "isValidMove board fromRow fromCol (row t) (col t) (Some t) =
             map_option Not (isKingInCheck newBoard (color pawn))"
    unfolding isValidMove_def Let_def
    by (simp add: rd_onBoard assms(1,2) nk ep sim bind_Some_Not)
  have cells: "newBoard (row t + (if color pawn = White then 1 else - 1)) (col t) = None"
    "newBoard (row t) (col t) = Some pawn" "newBoard fromRow fromCol = None"
    using c(3) ne by (auto simp: newBoard_def)
  have frame: "\<forall>r c. (r, c) \<noteq> (fromRow, fromCol) \<and> (r, c) \<noteq> (fromRow, col t) \<and>
                  (r, c) \<noteq> (row t, col t) \<longrightarrow> newBoard r c = board r c"
    by (auto simp: newBoard_def)
  show "\<exists>newBoard.
           simulateMove board pawn fromRow fromCol (row t) (col t) True (Some t) = Some newBoard \<and>
           newBoard (row t + (if color pawn = White then 1 else - 1)) (col t) = None \<and>
           newBoard (row t) (col t) = Some pawn \<and>
           newBoard fromRow fromCol = None \<and>
           (\<forall>r c. (r, c) \<noteq> (fromRow, fromCol) \<and> (r, c) \<noteq> (fromRow, col t) \<and>
                  (r, c) \<noteq> (row t, col t) \<longrightarrow> newBoard r c = board r c) \<and>
           isValidMove board fromRow fromCol (row t) (col t) (Some t) =
             map_option Not (isKingInCheck newBoard (color pawn))"
    using sim cells frame valid by blast
qed

lemma enPassantPosition_capture:
  "isValidMove enPassantPosition 3 4 2 5 (Some \<lparr>row = 2, col = 5\<rparr>) = Some True"
  unfolding enPassantPosition_def boardOf_def pc_def by code_simp

lemma enPassantPosition_case:
  "enPassantCase enPassantPosition (pc Pawn White) 3 4 2 5 (Some \<lparr>row = 2, col = 5\<rparr>)
     = Some IsEnPassant"
  unfolding enPassantPosition_def boardOf_def pc_def by code_simp

theorem enPassant_capture_witness:
  "onBoard 3 4 \<and> enPassantPosition 3 4 = Some (pc Pawn White) \<and> type (pc Pawn White) = Pawn \<and>
   enPassantCase enPassantPosition (pc Pawn White) 3 4 2 5 (Some \<lparr>row = 2, col = 5\<rparr>)
     = Some IsEnPassant \<and>
   enPassantPosition 2 5 = None \<and>
   enPassantPosition 3 5 = Some (pc Pawn Black) \<and>
   (\<exists>newBoard.
      simulateMove enPassantPosition (pc Pawn White) 3 4 2 5 True (Some \<lparr>row = 2, col = 5\<rparr>)
        = Some newBoard \<and>
      newBoard 3 5 = None \<and> newBoard 2 5 = Some (pc Pawn White) \<and>
      isKingInCheck newBoard White = Some False)"
proof -
  have h: "onBoard 3 4" "enPassantPosition 3 4 = Some (pc Pawn White)"
    "type (pc Pawn White) = Pawn" "enPassantPosition 2 5 = None"
    "enPassantPosition 3 5 = Some (pc Pawn Black)"
    by (simp_all add: onBoard_def enPassantPosition_def boardOf_def pc_def)
  show ?thesis
    using enPassant_capture [where board = enPassantPosition and fromRow = 3 and fromCol = 4
        and pawn = "pc Pawn White" and t = "\<lparr>row = 2, col = 5\<rparr>"] h
      enPassantPosition_case enPassantPosition_capture
    by (auto simp: pc_def map_option_Not_True)
qed

subsection \<open>C5: coordinates outside the grid\<close>

text \<open>
  C5, as the specification states it: for every board and all integer coordinates,
  \<open>isValidMove\<close> evaluates without faulting, and returns \<open>false\<close> whenever the from
  square or the to square is out of range or the source square is empty.

  This fails: \<open>isValidMove\<close> starts with \<open>board[fromRow][fromCol]\<close>, and for a row
  outside 0..7 \<open>board[fromRow]\<close> is \<open>undefined\<close>, so the call throws a \<open>TypeError\<close>.
\<close>

theorem isValidMove_row_out_of_range_counterexample:
  "rd createInitialBoard 8 0 = None \<and>
   isValidMove createInitialBoard 8 0 0 0 None = None \<and>
   \<not> returns (isValidMove createInitialBoard 8 0 0 0 None)"
  by (simp add: isValidMove_def rd_def returns_def)

text \<open>
  C5, as amended: for every board, every from-row in 0..7, all integer from-column,
  to-row and to-column, and every en passant target that is absent or a square of the
  grid, \<open>isValidMove\<close> returns a boolean without faulting; it returns \<open>false\<close> when the
  from-column is out of range or the source square is empty, and when the to square is
  out of range and the move is not a king moving two files along its row.
\<close>

theorem isValidMove_out_of_range:
  assumes "0 \<le> fromRow" "fromRow \<le> 7" "targetOnBoard enPassantTarget"
  shows "returns (isValidMove board fromRow fromCol toRow toCol enPassantTarget) \<and>
    (fromCol < 0 \<or> 7 < fromCol \<or> board fromRow fromCol = None \<longrightarrow>
       isValidMove board fromRow fromCol toRow toCol enPassantTarget = Some False) \<and>
    (\<not> onBoard toRow toCol \<and>
     \<not> (\<exists>k. board fromRow fromCol = Some k \<and> type k = King \<and>
            toRow = fromRow \<and> \<bar>toCol - fromCol\<bar> = 2) \<longrightarrow>
       isValidMove board fromRow fromCol toRow toCol enPassantTarget = Some False)"
proof (intro conjI impI)
  show "returns (isValidMove board fromRow fromCol toRow toCol enPassantTarget)"
    using assms by (intro isValidMove_returns) simp_all
next
  assume "fromCol < 0 \<or> 7 < fromCol \<or> board fromRow fromCol = None"
  then have "rd board fromRow fromCol = Some Undefined \<or> rd board fromRow fromCol = Some Null"
    using assms(1,2) by (auto simp: rd_def)
  then show "isValidMove board fromRow fromCol toRow toCol enPassantTarget = Some False"
    by (auto intro: isValidMove_no_piece simp: truthy_def)
next
  assume a: "\<not> onBoard toRow toCol \<and>
     \<not> (\<exists>k. board fromRow fromCol = Some k \<and> type k = King \<and>
            toRow = fromRow \<and> \<bar>toCol - fromCol\<bar> = 2)"
  obtain cell where cell: "rd board fromRow fromCol = Some cell"
    using rd_row [OF assms(1,2)] by blast
  show "isValidMove board fromRow fromCol toRow toCol enPassantTarget = Some False"
  proof (cases cell)
    case (Val p)
    then have "board fromRow fromCol = Some p" using cell by (simp add: rd_Val)
    then have nc: "(type p = King \<and> fromRow = toRow \<and> \<bar>toCol - fromCol\<bar> = 2) = False"
      using a by auto
    have off: "\<not> onBoard toRow toCol" using a by simp
    show ?thesis
      by (simp add: isValidMove_def cell Val nc enPassantCase_off_board [OF assms(3) off]
          isValidPieceMove_off_board [OF off])
  qed (use cell in \<open>auto intro: isValidMove_no_piece simp: truthy_def\<close>)
qed

theorem isValidMove_out_of_range_witness:
  "(0::int) \<le> 6 \<and> (6::int) \<le> 7 \<and> targetOnBoard None \<and>
   returns (isValidMove createInitialBoard 6 8 5 8 None) \<and>
   (7::int) < 8 \<and> \<not> onBoard 5 8 \<and>
   isValidMove createInitialBoard 6 8 5 8 None = Some False"
  using isValidMove_out_of_range [of 6 None createInitialBoard 8 5 8]
  by (simp add: targetOnBoard_def onBoard_def)

text \<open>
  The case left out of the amended claim: the castling branch does not check the
  destination column, so a king on column 6 next to its rook is allowed to move to
  column 8.
\<close>

lemma isValidMove_castle_off_board:
  "isValidMove (boardOf [((0, 6), pc King Black), ((0, 7), pc Rook Black), ((7, 4), pc King White)])
     0 6 0 8 None = Some True"
  unfolding boardOf_def pc_def by code_simp

subsection \<open>C6: the hard level\<close>

text \<open>
  C6 as the claim states it fails: the search plays white's replies without an en passant
  target. On \<open>doubleStepPosition\<close> \<open>getAIMove(board, 'hard')\<close> returns the double step of
  the pawn from (1,3) to (3,3), which leaves the en passant target (2,3). \<open>isValidMove\<close>
  accepts the reply of the white pawn from (3,2) onto that target, and the material
  balance after that capture is -1, so the 2-ply value of the returned move is at most
  -1; the search gives it 0. The king move from (7,7) to (6,6) is legal and leaves no en
  passant target, and the value of the board after it is 0, which is greater.
\<close>

theorem hard_en_passant_reply_counterexample:
  "getAIMove doubleStepPosition Hard 0 = Some (Val \<lparr>row = 11, col = 27\<rparr>) \<and>
   map_option snd (aiApplyMove doubleStepPosition None \<lparr>row = 11, col = 27\<rparr>)
     = Some (Some \<lparr>row = 2, col = 3\<rparr>) \<and>
   replyAccepted doubleStepPosition None \<lparr>row = 11, col = 27\<rparr> 3 2 2 3 = Some True \<and>
   replyBalance doubleStepPosition None \<lparr>row = 11, col = 27\<rparr> 3 2 2 3 = Some (- 1) \<and>
   appliedValue doubleStepPosition None \<lparr>row = 11, col = 27\<rparr> = Some (Num 0) \<and>
   legalEncodedMove doubleStepPosition Black \<lparr>row = 63, col = 54\<rparr> \<and>
   map_option snd (aiApplyMove doubleStepPosition None \<lparr>row = 63, col = 54\<rparr>) = Some None \<and>
   appliedValue doubleStepPosition None \<lparr>row = 63, col = 54\<rparr> = Some (Num 0)"
  unfolding doubleStepPosition_def boardOf_def pc_def by code_simp

text \<open>
  C6, amended: for every board on which black has at least one legal move and no legal
  black move is a king moving two columns along its row, \<open>getAIMove(board, 'hard')\<close>
  returns a legal black move \<open>best\<close> (legal: accepted by \<open>isValidMove\<close> without en passant
  target). Its value, \<open>minimax\<close> at depth 1 for the minimizing side on the board the game
  produces when it plays the move (white's replies being the moves that are legal without
  en passant target, material evaluation after the reply, \<open>Infinity\<close> or 0 when white has
  no reply, by check status), is greater than or equal to the value of every legal black
  move, and strictly greater than the value of every legal move enumerated before it:
  among moves of equal value the first in enumeration order is returned. That value is
  the value \<open>minimax\<close> gives the board itself at depth 2 with black maximizing. This holds
  for every en passant target the game holds when the move is played.
\<close>

theorem hard_returns_first_best_move:
  assumes "legalEncodedMove board Black someMove"
    and "\<forall>m \<in> set (legalMoves board Black). \<not> castlingEncodedMove board m"
  shows "\<exists>pre best post v.
     legalMoves board Black = pre @ best # post \<and>
     getAIMove board Hard rnd = Some (Val best) \<and>
     legalEncodedMove board Black best \<and>
     appliedValue board enPassantTarget best = Some v \<and>
     (\<forall>m. legalEncodedMove board Black m \<longrightarrow>
        (\<exists>u. appliedValue board enPassantTarget m = Some u \<and> u \<le> v)) \<and>
     (\<forall>m \<in> set pre. \<exists>u. appliedValue board enPassantTarget m = Some u \<and> u < v) \<and>
     minimax board 2 True = Some v"
proof -
  have ne: "legalMoves board Black \<noteq> []"
    using assms(1) legalMoves_iff [of someMove board Black] by auto
  have av: "appliedValue board enPassantTarget m = moveValue board m"
    if "m \<in> set (legalMoves board Black)" for m
    using that assms(2) appliedValue_legal [of board Black m enPassantTarget]
    by (simp add: legalMoves_iff)
  obtain pre best post v where h: "legalMoves board Black = pre @ best # post"
    "getAIMove board Hard rnd = Some (Val best)" "moveValue board best = Some v"
    "\<forall>m \<in> set pre. \<exists>u. moveValue board m = Some u \<and> u < v"
    "\<forall>m \<in> set post. \<exists>u. moveValue board m = Some u \<and> u \<le> v"
    using getAIMove_hard [OF ne, of rnd] by blast
  have best: "legalEncodedMove board Black best"
    using h(1) legalMoves_iff [of best board Black] by simp
  have vb: "appliedValue board enPassantTarget best = Some v"
    using av [of best] h(1,3) by simp
  have pre: "\<forall>m \<in> set pre. \<exists>u. appliedValue board enPassantTarget m = Some u \<and> u < v"
    using h(1,4) av by simp
  have all: "\<exists>u. appliedValue board enPassantTarget m = Some u \<and> u \<le> v"
    if "legalEncodedMove board Black m" for m
  proof -
    have mem: "m \<in> set (legalMoves board Black)" using that by (simp add: legalMoves_iff)
    then have "m \<in> set pre \<or> m = best \<or> m \<in> set post" using h(1) by auto
    then have "\<exists>u. moveValue board m = Some u \<and> u \<le> v"
      using h(3,4,5) by (auto intro: less_imp_le)
    then show ?thesis using av [OF mem] by simp
  qed
  have root: "minimax board 2 True = Some v"
    by (rule minimax_2_True [OF h(1,3,4,5)])
  show ?thesis using h(1,2) best vb all pre root by blast
qed

lemma pawnThreat_hard: "getAIMove pawnThreat Hard 0 = Some (Val \<lparr>row = 0, col = 9\<rparr>)"
  unfolding pawnThreat_def boardOf_def pc_def by code_simp

lemma pawnThreat_legal: "legalEncodedMove pawnThreat Black \<lparr>row = 0, col = 8\<rparr>"
  unfolding pawnThreat_def boardOf_def pc_def by code_simp

lemma pawnThreat_moves:
  "legalMoves pawnThreat Black =
     [\<lparr>row = 0, col = 1\<rparr>, \<lparr>row = 0, col = 8\<rparr>, \<lparr>row = 0, col = 9\<rparr>]"
  unfolding pawnThreat_def boardOf_def pc_def by code_simp

lemma pawnThreat_no_castle:
  "\<not> castlingEncodedMove pawnThreat \<lparr>row = 0, col = 1\<rparr>"
  "\<not> castlingEncodedMove pawnThreat \<lparr>row = 0, col = 8\<rparr>"
  "\<not> castlingEncodedMove pawnThreat \<lparr>row = 0, col = 9\<rparr>"
  unfolding pawnThreat_def boardOf_def pc_def by code_simp+

lemma pawnThreat_values:
  "appliedValue pawnThreat None \<lparr>row = 0, col = 1\<rparr> = Some (Num (- 1))"
  "appliedValue pawnThreat None \<lparr>row = 0, col = 8\<rparr> = Some (Num (- 9))"
  "appliedValue pawnThreat None \<lparr>row = 0, col = 9\<rparr> = Some (Num 0)"
  unfolding pawnThreat_def boardOf_def pc_def by code_simp+

theorem hard_returns_first_best_move_witness:
  "legalEncodedMove pawnThreat Black \<lparr>row = 0, col = 8\<rparr> \<and>
   legalMoves pawnThreat Black =
     [\<lparr>row = 0, col = 1\<rparr>, \<lparr>row = 0, col = 8\<rparr>, \<lparr>row = 0, col = 9\<rparr>] \<and>
   \<not> castlingEncodedMove pawnThreat \<lparr>row = 0, col = 1\<rparr> \<and>
   \<not> castlingEncodedMove pawnThreat \<lparr>row = 0, col = 8\<rparr> \<and>
   \<not> castlingEncodedMove pawnThreat \<lparr>row = 0, col = 9\<rparr> \<and>
   getAIMove pawnThreat Hard 0 = Some (Val \<lparr>row = 0, col = 9\<rparr>) \<and>
   legalEncodedMove pawnThreat Black \<lparr>row = 0, col = 9\<rparr> \<and>
   appliedValue pawnThreat None \<lparr>row = 0, col = 9\<rparr> = Some (Num 0) \<and>
   appliedValue pawnThreat None \<lparr>row = 0, col = 1\<rparr> = Some (Num (- 1)) \<and>
   appliedValue pawnThreat None \<lparr>row = 0, col = 8\<rparr> = Some (Num (- 9)) \<and>
   Num (- 1) < Num 0 \<and> Num (- 9) < Num 0 \<and>
   minimax pawnThreat 2 True = Some (Num 0)"
proof -
  have nc: "\<forall>m \<in> set (legalMoves pawnThreat Black). \<not> castlingEncodedMove pawnThreat m"
    using pawnThreat_no_castle by (simp add: pawnThreat_moves)
  show ?thesis
    using hard_returns_first_best_move [OF pawnThreat_legal nc, of 0 None]
      pawnThreat_hard pawnThreat_legal pawnThreat_moves pawnThreat_no_castle pawnThreat_values
    by auto
qed

text \<open>
  A king that moves two columns along its row is left out of the amended statement:
  \<open>makeMove\<close> leaves the rook in its corner, where the effect that plays the move puts it
  beside the king. On \<open>rookTrapPosition\<close> the hard level returns the castle from (0,4) to
  (0,6), which the search values at -4; on the board the game produces, the white pawn
  takes the rook on (0,5) and promotes, and the value is -9, less than the value -4 of the
  rook move from (0,7) to (0,6).
\<close>

lemma hard_castle_scored_without_rook:
  "getAIMove rookTrapPosition Hard 0 = Some (Val \<lparr>row = 4, col = 6\<rparr>) \<and>
   castlingEncodedMove rookTrapPosition \<lparr>row = 4, col = 6\<rparr> \<and>
   moveValue rookTrapPosition \<lparr>row = 4, col = 6\<rparr> = Some (Num (- 4)) \<and>
   appliedValue rookTrapPosition None \<lparr>row = 4, col = 6\<rparr> = Some (Num (- 9)) \<and>
   legalEncodedMove rookTrapPosition Black \<lparr>row = 7, col = 6\<rparr> \<and>
   appliedValue rookTrapPosition None \<lparr>row = 7, col = 6\<rparr> = Some (Num (- 4))"
  unfolding rookTrapPosition_def boardOf_def pc_def by code_simp

subsection \<open>C7: the medium level\<close>

text \<open>
  C7: for every board on which some legal black move captures a piece, every move that
  \<open>getAIMove(board, 'medium')\<close> can return is a capture whose captured-piece value
  equals the maximum captured-piece value over all legal black moves.

  The code scores a move by the piece standing on its destination, whatever its color
  (lemma \<open>getAIMove_medium\<close>: the candidates are the legal moves of maximal
  \<open>destinationValue\<close>). A king two columns away from its own corner rook may legally move
  onto the rook's square (the castling branch of \<open>isValidMove\<close>), and such a move is
  scored 5 although it captures nothing. On the position below black can capture a pawn
  (move 8 to 17, from (1,0) to (2,1)), and the medium level returns the king move from
  (0,5) onto its own rook on (0,7) instead.
\<close>

theorem medium_returns_king_onto_own_rook:
  "legalEncodedMove castleRookPosition Black \<lparr>row = 8, col = 17\<rparr> \<and>
   decodeIndex 8 = \<lparr>row = 1, col = 0\<rparr> \<and> decodeIndex 17 = \<lparr>row = 2, col = 1\<rparr> \<and>
   castleRookPosition 1 0 = Some (pc Pawn Black) \<and>
   castleRookPosition 2 1 = Some (pc Pawn White) \<and>
   getAIMove castleRookPosition Medium 0 = Some (Val \<lparr>row = 5, col = 7\<rparr>) \<and>
   decodeIndex 5 = \<lparr>row = 0, col = 5\<rparr> \<and> decodeIndex 7 = \<lparr>row = 0, col = 7\<rparr> \<and>
   castleRookPosition 0 5 = Some (pc King Black) \<and>
   castleRookPosition 0 7 = Some (pc Rook Black)"
proof -
  have "legalEncodedMove castleRookPosition Black \<lparr>row = 8, col = 17\<rparr>"
    unfolding castleRookPosition_def boardOf_def pc_def by code_simp
  moreover have "getAIMove castleRookPosition Medium 0 = Some (Val \<lparr>row = 5, col = 7\<rparr>)"
    unfolding castleRookPosition_def boardOf_def pc_def by code_simp
  ultimately show ?thesis
    by (simp add: decodeIndex_def jsRemainder_def castleRookPosition_def boardOf_def)
qed

subsection \<open>C8: no move\<close>

text \<open>
  C8: for every board, every difficulty and every value of \<open>Math.random()\<close> (a real
  number in [0, 1)), \<open>getAIMove\<close> returns \<open>null\<close> if and only if black has no legal move
  on that board (legality taken without en passant target); otherwise it returns a
  move, and that move is one of black's legal moves.
\<close>

theorem getAIMove_null_iff_no_legal_move:
  assumes "0 \<le> rnd" "rnd < 1"
  shows "(getAIMove board difficulty rnd = Some Null \<longleftrightarrow>
            \<not> (\<exists>move. legalEncodedMove board Black move)) \<and>
         (getAIMove board difficulty rnd = Some Null \<or>
            (\<exists>move. getAIMove board difficulty rnd = Some (Val move) \<and>
                    legalEncodedMove board Black move))"
proof (cases "legalMoves board Black = []")
  case True
  then have "\<not> (\<exists>move. legalEncodedMove board Black move)"
    using legalMoves_iff [of _ board Black] by auto
  then show ?thesis using getAIMove_no_moves [OF True] by simp
next
  case False
  then obtain m0 where "m0 \<in> set (legalMoves board Black)"
    by (cases "legalMoves board Black") auto
  then have ex: "\<exists>move. legalEncodedMove board Black move"
    using legalMoves_iff by blast
  have "\<exists>move. getAIMove board difficulty rnd = Some (Val move)"
  proof (cases difficulty)
    case Easy
    then show ?thesis
      using getAIMove_easy [OF False, of rnd] nthJs_random [OF assms False] by auto
  next
    case Medium
    obtain bestMoves where b: "bestMoves \<noteq> []"
      "getAIMove board Medium rnd = Some (nthJs bestMoves (randomIndex rnd (length bestMoves)))"
      using getAIMove_medium [OF False, of rnd] by blast
    show ?thesis
      using Medium b(2) nthJs_random [OF assms b(1)] by auto
  next
    case Hard
    then show ?thesis using getAIMove_hard [OF False, of rnd] by auto
  qed
  then obtain move where mv: "getAIMove board difficulty rnd = Some (Val move)" by blast
  then have "legalEncodedMove board Black move" by (rule getAIMove_Val_legal)
  then show ?thesis using mv ex by auto
qed

lemma matePosition_medium: "getAIMove matePosition Medium 0 = Some Null"
  unfolding matePosition_def boardOf_def pc_def by code_simp

theorem getAIMove_null_iff_no_legal_move_witness:
  "(0 :: real) \<le> 0 \<and> (0 :: real) < 1 \<and>
   getAIMove matePosition Medium 0 = Some Null \<and>
   \<not> (\<exists>move. legalEncodedMove matePosition Black move)"
  using getAIMove_null_iff_no_legal_move [of 0 matePosition Medium] matePosition_medium
  by simp

subsection \<open>C9: the search knows no en passant target\<close>

text \<open>
  C9: for every board and every difficulty, every move \<open>getAIMove\<close> returns is accepted
  by \<open>isValidMove\<close> called without en passant target; in particular it is never an en
  passant capture: when the moved piece is a pawn that changes column, the destination
  square holds a piece of the other color.
\<close>

theorem getAIMove_never_en_passant:
  assumes "getAIMove board difficulty rnd = Some (Val move)"
  shows "isValidMove board (row (decodeIndex (row move))) (col (decodeIndex (row move)))
           (row (decodeIndex (col move))) (col (decodeIndex (col move))) None = Some True \<and>
         (\<forall>pawn. board (row (decodeIndex (row move))) (col (decodeIndex (row move))) = Some pawn \<and>
                 type pawn = Pawn \<and>
                 col (decodeIndex (row move)) \<noteq> col (decodeIndex (col move)) \<longrightarrow>
            (\<exists>q. board (row (decodeIndex (col move))) (col (decodeIndex (col move))) = Some q \<and>
                 color q \<noteq> color pawn))"
proof -
  have l: "legalEncodedMove board Black move" using assms by (rule getAIMove_Val_legal)
  then have v: "isValidMove board (row (decodeIndex (row move))) (col (decodeIndex (row move)))
           (row (decodeIndex (col move))) (col (decodeIndex (col move))) None = Some True"
    by (simp add: legalEncodedMove_def Let_def)
  show ?thesis
  proof (intro conjI allI impI)
    show "isValidMove board (row (decodeIndex (row move))) (col (decodeIndex (row move)))
           (row (decodeIndex (col move))) (col (decodeIndex (col move))) None = Some True"
      by (rule v)
  next
    fix pawn
    assume p: "board (row (decodeIndex (row move))) (col (decodeIndex (row move))) = Some pawn \<and>
                 type pawn = Pawn \<and>
                 col (decodeIndex (row move)) \<noteq> col (decodeIndex (col move))"
    then have p1: "board (row (decodeIndex (row move))) (col (decodeIndex (row move))) = Some pawn"
      and p2: "type pawn = Pawn"
      and p3: "col (decodeIndex (row move)) \<noteq> col (decodeIndex (col move))"
      by simp_all
    have nk: "\<not> (type pawn = King \<and>
        row (decodeIndex (row move)) = row (decodeIndex (col move)) \<and>
        \<bar>col (decodeIndex (col move)) - col (decodeIndex (row move))\<bar> = 2)"
      using p2 by simp
    show "\<exists>q. board (row (decodeIndex (col move))) (col (decodeIndex (col move))) = Some q \<and>
                 color q \<noteq> color pawn"
      by (rule pawn_diagonal_captures [OF isValidMove_None_pieceMove [OF v p1 nk] p1 p2 p3])
  qed
qed

lemma castleRookPosition_easy:
  "getAIMove castleRookPosition Easy (15 / 17) = Some (Val \<lparr>row = 8, col = 17\<rparr>)"
  unfolding castleRookPosition_def boardOf_def pc_def by code_simp

theorem getAIMove_never_en_passant_witness:
  "getAIMove castleRookPosition Easy (15 / 17) = Some (Val \<lparr>row = 8, col = 17\<rparr>) \<and>
   isValidMove castleRookPosition 1 0 2 1 None = Some True \<and>
   castleRookPosition 1 0 = Some (pc Pawn Black) \<and>
   (\<exists>q. castleRookPosition 2 1 = Some q \<and> color q \<noteq> Black)"
proof -
  have d: "decodeIndex 8 = \<lparr>row = 1, col = 0\<rparr>" "decodeIndex 17 = \<lparr>row = 2, col = 1\<rparr>"
    by (simp_all add: decodeIndex_def jsRemainder_def)
  have p: "castleRookPosition 1 0 = Some (pc Pawn Black)"
    by (simp add: castleRookPosition_def boardOf_def)
  show ?thesis
    using getAIMove_never_en_passant [OF castleRookPosition_easy] castleRookPosition_easy p
    by (simp add: d pc_def)
qed

subsection \<open>C10: the board update of the search\<close>

text \<open>
  C10: for every board and every encoded move (both indices in 0..63), \<open>makeMove\<close>
  returns a board on which the decoded destination holds the moved piece (a queen of
  the same color when a pawn lands on row 0 or 7), the decoded source, when it differs
  from the destination, is empty, and every other square is unchanged: no rook is
  relocated for a two-file king move and no bypassed pawn is removed for a diagonal pawn
  move onto an empty square. If the source square is empty the returned board equals
  the input board.
\<close>

theorem makeMove_frame:
  assumes "0 \<le> row fromPos" "row fromPos < 64" "0 \<le> col toPos" "col toPos < 64"
  shows "\<exists>newBoard src dst.
     src = decodeIndex (row fromPos) \<and> dst = decodeIndex (col toPos) \<and>
     makeMove board fromPos toPos = Some newBoard \<and>
     (case board (row src) (col src) of
        None \<Rightarrow> newBoard = board
      | Some movingPiece \<Rightarrow>
          newBoard (row dst) (col dst) =
            Some (if type movingPiece = Pawn \<and> (row dst = 0 \<or> row dst = 7)
                  then \<lparr>type = Queen, color = color movingPiece\<rparr> else movingPiece) \<and>
          (src \<noteq> dst \<longrightarrow> newBoard (row src) (col src) = None) \<and>
          (\<forall>r c. (r, c) \<noteq> (row src, col src) \<and> (r, c) \<noteq> (row dst, col dst) \<longrightarrow>
                 newBoard r c = board r c))"
proof -
  define src where "src = decodeIndex (row fromPos)"
  define dst where "dst = decodeIndex (col toPos)"
  have q: "p \<lparr>type := Queen\<rparr> = \<lparr>type = Queen, color = color p\<rparr>" for p :: piece
    by simp
  have ne: "src \<noteq> dst \<Longrightarrow> row src = row dst \<Longrightarrow> col src \<noteq> col dst"
    by (cases src; cases dst) auto
  show ?thesis
  proof (cases "board (row src) (col src)")
    case None
    then show ?thesis
      using makeMove_eq [OF assms, of board]
      by (simp add: src_def dst_def Let_def)
  next
    case (Some movingPiece)
    then show ?thesis
      using makeMove_eq [OF assms, of board] ne
      unfolding src_def [symmetric] dst_def [symmetric] Let_def
      by (auto simp: q src_def dst_def)
  qed
qed

theorem makeMove_frame_witness:
  "(0 :: int) \<le> 8 \<and> (8 :: int) < 64 \<and> (0 :: int) \<le> 16 \<and> (16 :: int) < 64 \<and>
   (\<exists>newBoard.
      makeMove createInitialBoard \<lparr>row = 8, col = 0\<rparr> \<lparr>row = 0, col = 16\<rparr> = Some newBoard \<and>
      newBoard 2 0 = Some \<lparr>type = Pawn, color = Black\<rparr> \<and>
      newBoard 1 0 = None \<and>
      newBoard 0 0 = createInitialBoard 0 0)"
  using makeMove_frame [of "\<lparr>row = 8, col = 0\<rparr>" "\<lparr>row = 0, col = 16\<rparr>" createInitialBoard]
  by (auto simp: decodeIndex_def jsRemainder_def createInitialBoard_def)

end
